theory Spec2Isabelle
  imports Main
begin

section \<open>Values, objects and property reads\<close>

text \<open>
  The runtime file \<^verbatim>\<open>shared/runtime-utils.ts\<close> works on JavaScript values. A property
  key is a string or a symbol. An object reference carries its identity, whether it is
  callable (\<^verbatim>\<open>typeof\<close> gives \<^verbatim>\<open>"function"\<close>) and its prototype chain: nothing in the
  file changes a prototype after creation and a chain is never cyclic, so the chain is
  part of the reference and walking it is structural. Own properties are mutable and
  live in the store, indexed by identity, in the order \<^verbatim>\<open>Reflect.ownKeys\<close> reports.
\<close>

type_synonym addr = nat

datatype pkey = KStr string | KSym string

datatype ref = Ref (ident: addr) (callable: bool) (proto: "ref option")

datatype val =
    VUndefined
  | VNull
  | VBool bool
  | VNum int
  | VStr string
  | VObj ref

text \<open>The outcome of running a piece of code: it returns or it throws.\<close>

datatype 'a completion = Normal 'a | Throw val

text \<open>
  A getter installed by this file is one of two closures: \<^verbatim>\<open>() => obj[key]\<close>
  (\<^verbatim>\<open>createGetter\<close>) or \<^verbatim>\<open>() => raw\<close> (\<^verbatim>\<open>interopEsm\<close>).
\<close>

datatype getter = ReadProp val pkey | Const val

datatype slot = Data val | Getter getter

type_synonym props = "(pkey \<times> slot) list"

type_synonym store = "addr \<Rightarrow> props"

fun typeof :: "val \<Rightarrow> string" where
  "typeof VUndefined = ''undefined''"
| "typeof VNull = ''object''"
| "typeof (VBool _) = ''boolean''"
| "typeof (VNum _) = ''number''"
| "typeof (VStr _) = ''string''"
| "typeof (VObj r) = (if callable r then ''function'' else ''object'')"

fun truthy :: "val \<Rightarrow> bool" where
  "truthy VUndefined = False"
| "truthy VNull = False"
| "truthy (VBool b) = b"
| "truthy (VNum n) = (n \<noteq> 0)"
| "truthy (VStr s) = (s \<noteq> [])"
| "truthy (VObj _) = True"

text \<open>\<^verbatim>\<open>===\<close> and \<^verbatim>\<open>Array.prototype.includes\<close>: objects are compared by identity.\<close>

fun sameValue :: "val \<Rightarrow> val \<Rightarrow> bool" where
  "sameValue (VObj a) (VObj b) = (ident a = ident b)"
| "sameValue a b = (a = b)"

definition includes_list :: "val list \<Rightarrow> val \<Rightarrow> bool" where
  "includes_list xs v = list_ex (\<lambda>x. sameValue x v) xs"

text \<open>The built-in prototypes the file mentions, at fixed identities.\<close>

definition objectPrototype :: ref where
  "objectPrototype = Ref 0 False None"

definition arrayPrototype :: ref where
  "arrayPrototype = Ref 1 False (Some objectPrototype)"

definition functionPrototype :: ref where
  "functionPrototype = Ref 2 True (Some objectPrototype)"

definition errorPrototype :: ref where
  "errorPrototype = Ref 3 False (Some objectPrototype)"

definition promisePrototype :: ref where
  "promisePrototype = Ref 4 False (Some objectPrototype)"

definition hasOwnProperty :: "store \<Rightarrow> ref \<Rightarrow> pkey \<Rightarrow> bool" where
  "hasOwnProperty s obj name = (map_of (s (ident obj)) name \<noteq> None)"

definition ownKeys :: "store \<Rightarrow> ref \<Rightarrow> pkey list" where
  "ownKeys s obj = map fst (s (ident obj))"

fun stringKeys :: "pkey list \<Rightarrow> string list" where
  "stringKeys [] = []"
| "stringKeys (KStr k # ks) = k # stringKeys ks"
| "stringKeys (KSym _ # ks) = stringKeys ks"

definition getOwnPropertyNames :: "store \<Rightarrow> ref \<Rightarrow> string list" where
  "getOwnPropertyNames s obj = stringKeys (ownKeys s obj)"

text \<open>
  A proxy made by \<^verbatim>\<open>ensureDynamicExports\<close> is an object whose reads and key listings
  run the traps of its handler. \<open>views\<close> tells which addresses are such proxies, and for
  each its target and the current contents of the array \<^verbatim>\<open>reexportedObjects\<close> its
  handler closes over.
\<close>

type_synonym views = "addr \<rightharpoonup> ref \<times> val list"

text \<open>
  The loop of the \<^verbatim>\<open>get\<close> trap over the sources: the first value that is not
  \<^verbatim>\<open>undefined\<close>; \<open>rd\<close> is \<^verbatim>\<open>Reflect.get(obj, prop)\<close>.
\<close>

fun firstDefined :: "(val \<Rightarrow> val option) \<Rightarrow> val list \<Rightarrow> val option" where
  "firstDefined rd [] = Some VUndefined"
| "firstDefined rd (obj # rest) =
     (case rd obj of
        None \<Rightarrow> None
      | Some v \<Rightarrow> if v \<noteq> VUndefined then Some v else firstDefined rd rest)"

text \<open>
  \<^verbatim>\<open>Reflect.get(obj, prop)\<close>, that is \<^verbatim>\<open>obj[prop]\<close>. On a proxy the \<^verbatim>\<open>get\<close> trap runs: own
  properties of the target and the names \<^verbatim>\<open>default\<close> and \<^verbatim>\<open>__esModule\<close> are read from the
  target, any other property from the sources in order. On an ordinary object the first
  object of the chain that owns the property decides; a data property gives its value,
  an accessor runs its getter. The first argument bounds the depth of nested calls of
  traps and getters, as the call stack of the engine does; \<open>None\<close> is the exhausted
  stack.
\<close>

fun get :: "nat \<Rightarrow> views \<Rightarrow> store \<Rightarrow> ref \<Rightarrow> pkey \<Rightarrow> val option" where
  "get d vw s (Ref a c p) k =
     (case vw a of
        Some (target, sources) \<Rightarrow>
          (case d of
             0 \<Rightarrow> None
           | Suc d' \<Rightarrow>
               if hasOwnProperty s target k \<or> k = KStr ''default'' \<or> k = KStr ''__esModule''
               then get d' vw s target k
               else firstDefined
                      (\<lambda>obj. case obj of VObj r \<Rightarrow> get d' vw s r k | _ \<Rightarrow> Some VUndefined)
                      sources)
      | None \<Rightarrow>
          (case map_of (s a) k of
             Some (Data v) \<Rightarrow> Some v
           | Some (Getter g) \<Rightarrow>
               (case d of
                  0 \<Rightarrow> None
                | Suc d' \<Rightarrow>
                    (case g of
                       Const v \<Rightarrow> Some v
                     | ReadProp (VObj r) k' \<Rightarrow> get d' vw s r k'
                     | ReadProp _ k' \<Rightarrow> Some VUndefined))
           | None \<Rightarrow> (case p of None \<Rightarrow> Some VUndefined | Some q \<Rightarrow> get d vw s q k)))"

text \<open>
  Reading a property of any value. A primitive has no own properties; the prototypes of
  its wrapper objects are not modelled and give \<^verbatim>\<open>undefined\<close>. The file never reads a
  property of \<^verbatim>\<open>null\<close> or \<^verbatim>\<open>undefined\<close>.
\<close>

fun getV :: "nat \<Rightarrow> views \<Rightarrow> store \<Rightarrow> val \<Rightarrow> pkey \<Rightarrow> val option" where
  "getV d vw s (VObj r) k = get d vw s r k"
| "getV d vw s _ k = Some VUndefined"

text \<open>The \<^verbatim>\<open>in\<close> operator: some object of the chain owns the property.\<close>

fun hasProperty :: "store \<Rightarrow> ref \<Rightarrow> pkey \<Rightarrow> bool" where
  "hasProperty s (Ref a c p) k =
     (map_of (s a) k \<noteq> None \<or> (case p of None \<Rightarrow> False | Some q \<Rightarrow> hasProperty s q k))"

fun getProto :: "val \<Rightarrow> val" where
  "getProto (VObj r) = (case proto r of None \<Rightarrow> VNull | Some p \<Rightarrow> VObj p)"
| "getProto _ = VNull"

text \<open>Assignment \<^verbatim>\<open>obj[key] = v\<close> on a table of own entries: replace in place or append.\<close>

fun assign :: "('k \<times> 'v) list \<Rightarrow> 'k \<Rightarrow> 'v \<Rightarrow> ('k \<times> 'v) list" where
  "assign [] k v = [(k, v)]"
| "assign ((k', v') # kvs) k v = (if k' = k then (k, v) # kvs else (k', v') # assign kvs k v)"

section \<open>Module records and the runtime state\<close>

text \<open>
  \<^verbatim>\<open>BaseModule\<close>: the fields the shared runtime reads and writes. An absent \<^verbatim>\<open>error\<close> or
  \<^verbatim>\<open>namespaceObject\<close> is \<^verbatim>\<open>undefined\<close>; \<open>reexported\<close> is the slot \<^verbatim>\<open>[REEXPORTED_OBJECTS]\<close>,
  \<open>None\<close> while the slot is absent. A proxy made by \<^verbatim>\<open>ensureDynamicExports\<close> is recorded
  with its target and with the module whose source list its handler closes over.
\<close>

type_synonym maddr = nat

record module =
  exports :: val
  error :: val
  namespaceObject :: val
  reexported :: "val list option"

record state =
  store :: store
  modules :: "maddr \<Rightarrow> module"
  proxies :: "addr \<rightharpoonup> ref \<times> maddr"
  fresh :: addr

definition setProps :: "state \<Rightarrow> addr \<Rightarrow> props \<Rightarrow> state" where
  "setProps st a ps = st\<lparr>store := (store st)(a := ps)\<rparr>"

definition setModule :: "state \<Rightarrow> maddr \<Rightarrow> module \<Rightarrow> state" where
  "setModule st m r = st\<lparr>modules := (modules st)(m := r)\<rparr>"

text \<open>Allocation of a new object with the given prototype and own properties.\<close>

definition alloc :: "state \<Rightarrow> bool \<Rightarrow> ref option \<Rightarrow> props \<Rightarrow> ref \<times> state" where
  "alloc st c p ps =
     (Ref (fresh st) c p, st\<lparr>store := (store st)(fresh st := ps), fresh := Suc (fresh st)\<rparr>)"

section \<open>moduleLookup\<close>

text \<open>
  \<^verbatim>\<open>map\<close> is a record from names to functors; a functor is modelled by what calling it
  does. The result of \<^verbatim>\<open>moduleLookup\<close> is a completion, whose value is either an
  ordinary value or the promise \<^verbatim>\<open>Promise.resolve().then(() => { throw e })\<close>: a promise
  that is pending when returned and is settled by one queued job.
\<close>

type_synonym thunk = "state \<Rightarrow> val completion \<times> state"

datatype lookup_value = Plain val | PendingThen "val completion"

datatype settled = Fulfilled val | Rejected val

fun runJob :: "lookup_value \<Rightarrow> settled option" where
  "runJob (Plain v) = None"
| "runJob (PendingThen (Normal v)) = Some (Fulfilled v)"
| "runJob (PendingThen (Throw e)) = Some (Rejected e)"

definition cannotFind :: "string \<Rightarrow> string" where
  "cannotFind name = ''Cannot find module '' @ [CHR 0x27] @ name @ [CHR 0x27]"

text \<open>\<^verbatim>\<open>new Error(message)\<close>; the engine's own \<^verbatim>\<open>stack\<close> property is left out.\<close>

definition newError :: "state \<Rightarrow> string \<Rightarrow> ref \<times> state" where
  "newError st msg = alloc st False (Some errorPrototype) [(KStr ''message'', Data (VStr msg))]"

definition moduleLookup ::
  "state \<Rightarrow> (string \<rightharpoonup> thunk) \<Rightarrow> string \<Rightarrow> bool \<Rightarrow> lookup_value completion \<times> state" where
  "moduleLookup st mp name returnPromise =
     (case mp name of
        Some f \<Rightarrow>
          (case f st of
             (Normal v, st') \<Rightarrow> (Normal (Plain v), st')
           | (Throw x, st') \<Rightarrow> (Throw x, st'))
      | None \<Rightarrow>
          (let (e, st1) = newError st (cannotFind name);
               st2 = setProps st1 (ident e)
                       (assign (store st1 (ident e)) (KStr ''code'') (Data (VStr ''MODULE_NOT_FOUND'')))
           in if returnPromise then (Normal (PendingThen (Throw (VObj e))), st2)
              else (Throw (VObj e), st2)))"

section \<open>Export interop layer\<close>

text \<open>
  \<^verbatim>\<open>defineProp\<close> defines a property only when the object does not own it yet. The
  attributes of the descriptor other than its value or getter are not modelled.
\<close>

definition defineProp :: "store \<Rightarrow> ref \<Rightarrow> pkey \<Rightarrow> slot \<Rightarrow> store" where
  "defineProp s obj name options =
     (if \<not> hasOwnProperty s obj name then s(ident obj := s (ident obj) @ [(name, options)]) else s)"

text \<open>
  \<^verbatim>\<open>toStringTag = typeof Symbol !== "undefined" && Symbol.toStringTag\<close>: the symbol, in
  every engine that has symbols.
\<close>

definition toStringTag :: "pkey option" where
  "toStringTag = Some (KSym ''Symbol.toStringTag'')"

type_synonym getters = "(string \<times> getter) list"

definition esm :: "store \<Rightarrow> ref \<Rightarrow> getters \<Rightarrow> store" where
  "esm s exps gs =
     (let s1 = defineProp s exps (KStr ''__esModule'') (Data (VBool True));
          s2 = (case toStringTag of
                  Some t \<Rightarrow> defineProp s1 exps t (Data (VStr ''Module''))
                | None \<Rightarrow> s1)
      in foldl (\<lambda>s' (key, g). defineProp s' exps (KStr key) (Getter g)) s2 gs)"

definition esmExport :: "state \<Rightarrow> maddr \<Rightarrow> ref \<Rightarrow> getters \<Rightarrow> state" where
  "esmExport st m exps gs =
     (let st1 = setModule st m ((modules st m)\<lparr>namespaceObject := exports (modules st m)\<rparr>)
      in st1\<lparr>store := esm (store st1) exps gs\<rparr>)"

text \<open>
  The two traps of the proxy of \<^verbatim>\<open>ensureDynamicExports\<close>, as functions of the target and of
  the current contents of the array \<^verbatim>\<open>reexportedObjects\<close>.
\<close>

definition proxyGet :: "nat \<Rightarrow> views \<Rightarrow> store \<Rightarrow> ref \<Rightarrow> val list \<Rightarrow> pkey \<Rightarrow> val option" where
  "proxyGet d vw s target reexportedObjects prop =
     (if hasOwnProperty s target prop \<or> prop = KStr ''default'' \<or> prop = KStr ''__esModule''
      then get d vw s target prop
      else firstDefined (\<lambda>obj. getV d vw s obj prop) reexportedObjects)"

definition pushNew :: "pkey list \<Rightarrow> pkey \<Rightarrow> pkey list" where
  "pushNew keys key = (if key \<noteq> KStr ''default'' \<and> \<not> List.member keys key then keys @ [key] else keys)"

text \<open>
  The loops of the \<^verbatim>\<open>ownKeys\<close> trap: every key of every source that is not \<^verbatim>\<open>default\<close> and
  not yet listed is pushed; \<open>keysOf\<close> is \<^verbatim>\<open>Reflect.ownKeys(obj)\<close>.
\<close>

fun mergeKeys :: "(val \<Rightarrow> pkey list option) \<Rightarrow> pkey list \<Rightarrow> val list \<Rightarrow> pkey list option" where
  "mergeKeys keysOf keys [] = Some keys"
| "mergeKeys keysOf keys (obj # rest) =
     (case keysOf obj of
        None \<Rightarrow> None
      | Some ks \<Rightarrow> mergeKeys keysOf (foldl pushNew keys ks) rest)"

text \<open>
  \<^verbatim>\<open>Reflect.ownKeys(obj)\<close>: the own keys of an ordinary object, the result of the
  \<^verbatim>\<open>ownKeys\<close> trap on a proxy, with the depth of nested trap calls bounded as in \<open>get\<close>.
\<close>

fun ownKeysV :: "nat \<Rightarrow> views \<Rightarrow> store \<Rightarrow> val \<Rightarrow> pkey list option" where
  "ownKeysV d vw s (VObj r) =
     (case vw (ident r) of
        None \<Rightarrow> Some (ownKeys s r)
      | Some (target, sources) \<Rightarrow>
          (case d of
             0 \<Rightarrow> None
           | Suc d' \<Rightarrow> mergeKeys (\<lambda>obj. ownKeysV d' vw s obj) (ownKeys s target) sources))"
| "ownKeysV d vw s _ = Some []"

definition proxyOwnKeys :: "nat \<Rightarrow> views \<Rightarrow> store \<Rightarrow> ref \<Rightarrow> val list \<Rightarrow> pkey list option" where
  "proxyOwnKeys d vw s target reexportedObjects =
     mergeKeys (ownKeysV d vw s) (ownKeys s target) reexportedObjects"

definition ensureDynamicExports :: "state \<Rightarrow> maddr \<Rightarrow> ref \<Rightarrow> state" where
  "ensureDynamicExports st m exps =
     (case reexported (modules st m) of
        Some _ \<Rightarrow> st
      | None \<Rightarrow>
          (let a = fresh st;
               proxy = VObj (Ref a (callable exps) (proto exps))
           in st\<lparr>modules := (modules st)(m := (modules st m)
                    \<lparr>exports := proxy, namespaceObject := proxy, reexported := Some []\<rparr>),
                 proxies := (proxies st)(a \<mapsto> (exps, m)),
                 fresh := Suc a\<rparr>))"

definition dynamicExport :: "state \<Rightarrow> maddr \<Rightarrow> ref \<Rightarrow> val \<Rightarrow> state" where
  "dynamicExport st m exps object =
     (let st1 = ensureDynamicExports st m exps in
      if typeof object = ''object'' \<and> object \<noteq> VNull
      then setModule st1 m ((modules st1 m)
             \<lparr>reexported := map_option (\<lambda>xs. xs @ [object]) (reexported (modules st1 m))\<rparr>)
      else st1)"

text \<open>The proxies of a state, each with the source list of its module as it is now.\<close>

definition sourcesOf :: "state \<Rightarrow> maddr \<Rightarrow> val list" where
  "sourcesOf st m = (case reexported (modules st m) of None \<Rightarrow> [] | Some xs \<Rightarrow> xs)"

definition viewsOf :: "state \<Rightarrow> views" where
  "viewsOf st a =
     (case proxies st a of
        None \<Rightarrow> None
      | Some (target, m) \<Rightarrow> Some (target, sourcesOf st m))"

text \<open>
  Reading a property of, and listing the keys of, the proxy at address \<open>a\<close>: the traps
  run on the target and on the source list of the owning module as it is now.
\<close>

definition readProxy :: "nat \<Rightarrow> state \<Rightarrow> addr \<Rightarrow> pkey \<Rightarrow> val option" where
  "readProxy d st a prop =
     (case proxies st a of
        None \<Rightarrow> None
      | Some (target, m) \<Rightarrow> proxyGet d (viewsOf st) (store st) target (sourcesOf st m) prop)"

definition keysProxy :: "nat \<Rightarrow> state \<Rightarrow> addr \<Rightarrow> pkey list option" where
  "keysProxy d st a =
     (case proxies st a of
        None \<Rightarrow> None
      | Some (target, m) \<Rightarrow> proxyOwnKeys d (viewsOf st) (store st) target (sourcesOf st m))"

definition exportValue :: "state \<Rightarrow> maddr \<Rightarrow> val \<Rightarrow> state" where
  "exportValue st m v = setModule st m ((modules st m)\<lparr>exports := v\<rparr>)"

definition exportNamespace :: "state \<Rightarrow> maddr \<Rightarrow> val \<Rightarrow> state" where
  "exportNamespace st m ns = setModule st m ((modules st m)\<lparr>exports := ns, namespaceObject := ns\<rparr>)"

definition createGetter :: "val \<Rightarrow> pkey \<Rightarrow> getter" where
  "createGetter obj key = ReadProp obj key"

definition LEAF_PROTOTYPES :: "val list" where
  "LEAF_PROTOTYPES = [VNull, VObj objectPrototype, VObj arrayPrototype, VObj functionPrototype]"

fun chainLength :: "val \<Rightarrow> nat" where
  "chainLength (VObj r) = size r"
| "chainLength _ = 0"

text \<open>
  The loop of \<^verbatim>\<open>interopEsm\<close>: \<open>current\<close> runs up the prototype chain of \<open>raw\<close>; at every
  level each own property name gets the getter \<^verbatim>\<open>createGetter(raw, key)\<close>.
\<close>

fun namesOf :: "store \<Rightarrow> val \<Rightarrow> string list" where
  "namesOf s (VObj r) = getOwnPropertyNames s r"
| "namesOf s _ = []"

function collectGetters :: "store \<Rightarrow> val \<Rightarrow> val \<Rightarrow> getters \<Rightarrow> getters" where
  "collectGetters s raw current gs =
     (if (typeof current = ''object'' \<or> typeof current = ''function'') \<and>
         \<not> includes_list LEAF_PROTOTYPES current
      then collectGetters s raw (getProto current)
             (foldl (\<lambda>g key. assign g key (createGetter raw (KStr key))) gs (namesOf s current))
      else gs)"
  by pat_completeness auto
termination
proof (relation "measure (\<lambda>(s, raw, current, gs). chainLength current)")
  show "wf (measure (\<lambda>(s, raw, current, gs). chainLength current))"
    by simp
next
  fix s :: store and raw current :: val and gs :: getters
  assume "(typeof current = ''object'' \<or> typeof current = ''function'') \<and>
          \<not> includes_list LEAF_PROTOTYPES current"
  then obtain r where "current = VObj r"
    by (cases current) (auto simp: includes_list_def LEAF_PROTOTYPES_def)
  then show "((s, raw, getProto current,
               foldl (\<lambda>g key. assign g key (createGetter raw (KStr key))) gs (namesOf s current)),
              (s, raw, current, gs))
             \<in> measure (\<lambda>(s, raw, current, gs). chainLength current)"
    by (cases r) (auto split: option.splits)
qed

declare collectGetters.simps [simp del]

definition interopEsm :: "store \<Rightarrow> val \<Rightarrow> ref \<Rightarrow> val \<Rightarrow> store" where
  "interopEsm s raw ns allowExportDefault =
     (let gs = collectGetters s raw raw [];
          gs' = (if \<not> (truthy allowExportDefault \<and> map_of gs ''default'' \<noteq> None)
                 then assign gs ''default'' (Const raw) else gs)
      in esm s ns gs')"

section \<open>Import bridge\<close>

text \<open>
  \<^verbatim>\<open>getOrInstantiateModuleFromParent\<close> belongs to the module registry, which is outside
  this file: it is a parameter. It may run module bodies, so it changes the state, and
  it may throw.
\<close>

type_synonym registry = "state \<Rightarrow> string \<Rightarrow> maddr \<Rightarrow> maddr completion \<times> state"

definition esmImport ::
  "nat \<Rightarrow> registry \<Rightarrow> state \<Rightarrow> maddr \<Rightarrow> string \<Rightarrow> (val completion \<times> state) option" where
  "esmImport d getOrInstantiateModuleFromParent st sourceModule moduleId =
     (case getOrInstantiateModuleFromParent st moduleId sourceModule of
        (Throw x, st1) \<Rightarrow> Some (Throw x, st1)
      | (Normal m, st1) \<Rightarrow>
          if truthy (error (modules st1 m)) then Some (Throw (error (modules st1 m)), st1)
          else if truthy (namespaceObject (modules st1 m))
          then Some (Normal (namespaceObject (modules st1 m)), st1)
          else
            (let raw = exports (modules st1 m);
                 (ns, st2) = alloc st1 False (Some objectPrototype) []
             in case (if truthy raw then getV d (viewsOf st2) (store st2) raw (KStr ''__esModule'')
                      else Some raw) of
                  None \<Rightarrow> None
                | Some allow \<Rightarrow>
                    Some (Normal (VObj ns),
                          setModule (st2\<lparr>store := interopEsm (store st2) raw ns allow\<rparr>) m
                            ((modules st2 m)\<lparr>namespaceObject := VObj ns\<rparr>))))"

definition commonJsRequire :: "registry \<Rightarrow> state \<Rightarrow> maddr \<Rightarrow> string \<Rightarrow> val completion \<times> state" where
  "commonJsRequire getOrInstantiateModuleFromParent st sourceModule moduleId =
     (case getOrInstantiateModuleFromParent st moduleId sourceModule of
        (Throw x, st1) \<Rightarrow> (Throw x, st1)
      | (Normal m, st1) \<Rightarrow>
          if truthy (error (modules st1 m)) then (Throw (error (modules st1 m)), st1)
          else (Normal (exports (modules st1 m)), st1))"

section \<open>Async dependency resolver\<close>

text \<open>
  An \<^verbatim>\<open>AsyncQueue\<close> is an array of continuations with the flag \<^verbatim>\<open>resolved\<close>; an
  \<^verbatim>\<open>AsyncQueueFn\<close> is the continuation \<^verbatim>\<open>() => resolve(getResult)\<close> of one call of
  \<^verbatim>\<open>handleAsyncDependencies\<close>, with its \<^verbatim>\<open>queueCount\<close>. Queues and continuations are
  shared mutable objects, so they live in tables indexed by identity. \<open>calls\<close> counts
  how often the continuation has been called; \<open>resolves\<close> is the promise of its
  \<^verbatim>\<open>createPromise\<close> and \<open>yields\<close> the list \<^verbatim>\<open>currentDeps\<close> its \<^verbatim>\<open>getResult\<close> closes over.

  An \<^verbatim>\<open>AsyncModuleExt\<close> is one of three objects: the promise of an async module, which
  carries the slots itself (\<open>HModule\<close>, slots in \<open>ext\<close>); the object \<^verbatim>\<open>obj\<close> that
  \<^verbatim>\<open>wrapDeps\<close> makes for a promise (\<open>HWrapped\<close>, slots in \<open>wrappedDeps\<close>); the object
  \<^verbatim>\<open>ret\<close> it makes for any other value, which is never written again (\<open>HPlain\<close>).
\<close>

record queue =
  resolved :: bool
  entries :: "nat list"

datatype dephandle = HModule addr | HWrapped nat | HPlain val

datatype hval = HArray "val list" | HFunction "dephandle list" | HPromise nat

datatype pstate = Pending | FulfilledWith hval

record asyncFn =
  queueCount :: int
  calls :: nat
  resolves :: nat
  yields :: "dephandle list"

record extSlots =
  x_exports :: val
  x_error :: val
  x_owner :: nat

record wrapped =
  w_exports :: val
  w_error :: val
  w_queue :: nat

text \<open>
  What the closures of one call of \<^verbatim>\<open>asyncModule\<close> share: \<^verbatim>\<open>queue\<close>, \<^verbatim>\<open>depQueues\<close> (a set,
  in insertion order), \<^verbatim>\<open>exports\<close>, the promise and how it has been settled.
\<close>

record asyncMod =
  am_queue :: "nat option"
  am_depQueues :: "nat list"
  am_exports :: val
  am_promise :: addr
  am_settled :: "settled option"

text \<open>
  \<open>thenable\<close> tells which objects are promises: objects with a callable \<^verbatim>\<open>then\<close>, which
  is what \<^verbatim>\<open>isPromise\<close> tests. Only native promises are modelled, whose \<^verbatim>\<open>then\<close> runs one
  of the two callbacks in a later job. \<open>base\<close> is the state of the module records and
  of the objects, in which \<^verbatim>\<open>asyncModule\<close> and \<^verbatim>\<open>wrapDeps\<close> allocate.
\<close>

record astate =
  queues :: "nat \<Rightarrow> queue"
  nextQueue :: nat
  fns :: "nat \<Rightarrow> asyncFn"
  nextFn :: nat
  promises :: "nat \<Rightarrow> pstate"
  nextPromise :: nat
  ext :: "addr \<rightharpoonup> extSlots"
  wrappedDeps :: "nat \<Rightarrow> wrapped"
  nextWrapped :: nat
  thenable :: "addr \<Rightarrow> bool"
  amods :: "nat \<Rightarrow> asyncMod"
  nextMod :: nat
  base :: state

fun isPromise :: "astate \<Rightarrow> val \<Rightarrow> bool" where
  "isPromise st (VObj r) = (typeof (VObj r) = ''object'' \<and> thenable st (ident r))"
| "isPromise st _ = False"

fun isAsyncModuleExt :: "astate \<Rightarrow> val \<Rightarrow> bool" where
  "isAsyncModuleExt st (VObj r) = (ext st (ident r) \<noteq> None)"
| "isAsyncModuleExt st _ = False"

text \<open>Calling a continuation: \<^verbatim>\<open>resolve(getResult)\<close>; only the first resolution counts.\<close>

definition callFn :: "astate \<Rightarrow> nat \<Rightarrow> astate" where
  "callFn st f =
     (let fn = fns st f;
          st1 = st\<lparr>fns := (fns st)(f := fn\<lparr>calls := Suc (calls fn)\<rparr>)\<rparr>
      in case promises st1 (resolves fn) of
           Pending \<Rightarrow> st1\<lparr>promises := (promises st1)(resolves fn := FulfilledWith (HFunction (yields fn)))\<rparr>
         | FulfilledWith _ \<Rightarrow> st1)"

definition decrement :: "astate \<Rightarrow> nat \<Rightarrow> astate" where
  "decrement st f = st\<lparr>fns := (fns st)(f := (fns st f)\<lparr>queueCount := queueCount (fns st f) - 1\<rparr>)\<rparr>"

definition increment :: "astate \<Rightarrow> nat \<Rightarrow> astate" where
  "increment st f = st\<lparr>fns := (fns st)(f := (fns st f)\<lparr>queueCount := queueCount (fns st f) + 1\<rparr>)\<rparr>"

text \<open>\<^verbatim>\<open>fn.queueCount-- ? fn.queueCount++ : fn()\<close>: the test sees the value before the decrement.\<close>

definition settleFn :: "astate \<Rightarrow> nat \<Rightarrow> astate" where
  "settleFn st f =
     (let old = queueCount (fns st f);
          st1 = decrement st f
      in if old \<noteq> 0 then increment st1 f else callFn st1 f)"

definition resolveQueue :: "astate \<Rightarrow> nat option \<Rightarrow> astate" where
  "resolveQueue st qu =
     (case qu of
        None \<Rightarrow> st
      | Some q \<Rightarrow>
          if \<not> resolved (queues st q)
          then (let st1 = st\<lparr>queues := (queues st)(q := (queues st q)\<lparr>resolved := True\<rparr>)\<rparr>;
                    st2 = foldl decrement st1 (entries (queues st1 q))
                in foldl settleFn st2 (entries (queues st2 q)))
          else st)"

text \<open>
  \<^verbatim>\<open>wrapDeps\<close>, one dependency at a time. For a promise, \<^verbatim>\<open>dep.then(...)\<close> registers the two
  callbacks of \<open>thenCallback\<close> below; neither runs before \<^verbatim>\<open>wrapDeps\<close> returns.
\<close>

definition wrapDep :: "astate \<Rightarrow> val \<Rightarrow> dephandle \<times> astate" where
  "wrapDep st dep =
     (if dep \<noteq> VNull \<and> typeof dep = ''object''
      then (if isAsyncModuleExt st dep
            then (HModule (case dep of VObj r \<Rightarrow> ident r | _ \<Rightarrow> 0), st)
            else if isPromise st dep
            then (let q = nextQueue st; h = nextWrapped st;
                      (obj, b) = alloc (base st) False (Some objectPrototype) []
                  in (HWrapped h,
                      st\<lparr>queues := (queues st)(q := \<lparr>resolved = False, entries = []\<rparr>),
                         nextQueue := Suc q,
                         wrappedDeps := (wrappedDeps st)(h :=
                           \<lparr>w_exports = VObj obj, w_error = VUndefined, w_queue = q\<rparr>),
                         nextWrapped := Suc h,
                         base := b\<rparr>))
            else (HPlain dep, st))
      else (HPlain dep, st))"

fun wrapDeps :: "astate \<Rightarrow> val list \<Rightarrow> dephandle list \<times> astate" where
  "wrapDeps st [] = ([], st)"
| "wrapDeps st (dep # deps) =
     (let (h, st1) = wrapDep st dep;
          (hs, st2) = wrapDeps st1 deps
      in (h # hs, st2))"

text \<open>The callbacks \<^verbatim>\<open>wrapDeps\<close> passes to \<^verbatim>\<open>dep.then\<close>, run when the promise settles.\<close>

definition thenCallback :: "astate \<Rightarrow> nat \<Rightarrow> settled \<Rightarrow> astate" where
  "thenCallback st h outcome =
     (let w = wrappedDeps st h;
          w' = (case outcome of
                  Fulfilled res \<Rightarrow> w\<lparr>w_exports := res\<rparr>
                | Rejected err \<Rightarrow> w\<lparr>w_error := err\<rparr>)
      in resolveQueue (st\<lparr>wrappedDeps := (wrappedDeps st)(h := w')\<rparr>) (Some (w_queue w)))"

text \<open>The slots \<^verbatim>\<open>[turbopackExports]\<close> and \<^verbatim>\<open>[turbopackError]\<close> of a handle.\<close>

fun exportsOf :: "astate \<Rightarrow> dephandle \<Rightarrow> val" where
  "exportsOf st (HModule a) = (case ext st a of Some x \<Rightarrow> x_exports x | None \<Rightarrow> VUndefined)"
| "exportsOf st (HWrapped h) = w_exports (wrappedDeps st h)"
| "exportsOf st (HPlain v) = v"

fun errorOf :: "astate \<Rightarrow> dephandle \<Rightarrow> val" where
  "errorOf st (HModule a) = (case ext st a of Some x \<Rightarrow> x_error x | None \<Rightarrow> VUndefined)"
| "errorOf st (HWrapped h) = w_error (wrappedDeps st h)"
| "errorOf st (HPlain v) = VUndefined"

text \<open>
  The queues a handle's \<^verbatim>\<open>[turbopackQueues]\<close> passes to its argument, in order: for an
  async module its own queue, if it has one, then its \<^verbatim>\<open>depQueues\<close>; for a wrapped
  promise its private queue; for a plain value none.
\<close>

fun queuesOf :: "astate \<Rightarrow> dephandle \<Rightarrow> nat list" where
  "queuesOf st (HModule a) =
     (case ext st a of
        None \<Rightarrow> []
      | Some x \<Rightarrow>
          (case am_queue (amods st (x_owner x)) of None \<Rightarrow> [] | Some q \<Rightarrow> [q])
          @ am_depQueues (amods st (x_owner x)))"
| "queuesOf st (HWrapped h) = [w_queue (wrappedDeps st h)]"
| "queuesOf st (HPlain v) = []"

text \<open>\<^verbatim>\<open>getResult\<close>: the exports of every handle, unless one has a truthy stored error.\<close>

fun getResult :: "astate \<Rightarrow> dephandle list \<Rightarrow> val list completion" where
  "getResult st [] = Normal []"
| "getResult st (d # ds) =
     (if truthy (errorOf st d) then Throw (errorOf st d)
      else (case getResult st ds of
              Throw e \<Rightarrow> Throw e
            | Normal vs \<Rightarrow> Normal (exportsOf st d # vs)))"

text \<open>\<^verbatim>\<open>fnQueue\<close> of the call of \<^verbatim>\<open>handleAsyncDependencies\<close> of module \<open>m\<close> with continuation \<open>f\<close>.\<close>

definition fnQueue :: "nat \<Rightarrow> nat \<Rightarrow> astate \<Rightarrow> nat \<Rightarrow> astate" where
  "fnQueue m f st q =
     (let am = amods st m in
      if am_queue am \<noteq> Some q \<and> \<not> List.member (am_depQueues am) q
      then (let st1 = st\<lparr>amods := (amods st)(m := am\<lparr>am_depQueues := am_depQueues am @ [q]\<rparr>)\<rparr>
            in if \<not> resolved (queues st1 q)
               then (increment st1 f)\<lparr>queues := (queues st1)(q := (queues st1 q)
                       \<lparr>entries := entries (queues st1 q) @ [f]\<rparr>)\<rparr>
               else st1)
      else st)"

definition registerDep :: "nat \<Rightarrow> nat \<Rightarrow> astate \<Rightarrow> dephandle \<Rightarrow> astate" where
  "registerDep m f st dep = foldl (fnQueue m f) st (queuesOf st dep)"

definition handleAsyncDependencies :: "astate \<Rightarrow> nat \<Rightarrow> val list \<Rightarrow> hval completion \<times> astate" where
  "handleAsyncDependencies st m deps =
     (let (currentDeps, st1) = wrapDeps st deps;
          p = nextPromise st1;
          st2 = st1\<lparr>promises := (promises st1)(p := Pending), nextPromise := Suc p\<rparr>;
          f = nextFn st2;
          st3 = st2\<lparr>fns := (fns st2)(f := \<lparr>queueCount = 0, calls = 0, resolves = p, yields = currentDeps\<rparr>),
                    nextFn := Suc f\<rparr>;
          st4 = foldl (registerDep m f) st3 currentDeps
      in if queueCount (fns st4 f) \<noteq> 0 then (Normal (HPromise p), st4)
         else (case getResult st4 currentDeps of
                 Normal vs \<Rightarrow> (Normal (HArray vs), st4)
               | Throw e \<Rightarrow> (Throw e, st4)))"

text \<open>\<^verbatim>\<open>asyncResult\<close> of module \<open>m\<close>.\<close>

definition asyncResult :: "astate \<Rightarrow> nat \<Rightarrow> val \<Rightarrow> astate" where
  "asyncResult st m err =
     (let am = amods st m;
          st1 = (if truthy err
                 then st\<lparr>ext := (ext st)(am_promise am :=
                            map_option (\<lambda>x. x\<lparr>x_error := err\<rparr>) (ext st (am_promise am))),
                         amods := (amods st)(m := am\<lparr>am_settled :=
                            (case am_settled am of None \<Rightarrow> Some (Rejected err) | Some w \<Rightarrow> Some w)\<rparr>)\<rparr>
                 else st\<lparr>amods := (amods st)(m := am\<lparr>am_settled :=
                            (case am_settled am of None \<Rightarrow> Some (Fulfilled (am_exports am)) | Some w \<Rightarrow> Some w)\<rparr>)\<rparr>)
      in resolveQueue st1 (am_queue am))"

text \<open>
  \<^verbatim>\<open>asyncModule\<close> for the module record at \<open>mo\<close>. The closures it creates share the record
  \<open>asyncMod\<close>, allocated at a new index \<open>m\<close>; the promise is a new object that carries the
  three slots and becomes both \<^verbatim>\<open>module.exports\<close> and \<^verbatim>\<open>module.namespaceObject\<close>. \<open>exps\<close> is
  the value of \<^verbatim>\<open>module.exports\<close> after \<^verbatim>\<open>ensureDynamicExports\<close>, which by its type is an
  object. \<open>body\<close> is the synchronous run of the module body, which may call the runtime.
  The queue is created with \<^verbatim>\<open>resolved: true\<close> and the flag is set to \<^verbatim>\<open>false\<close> when the
  body has returned.
\<close>

definition asyncModule :: "astate \<Rightarrow> maddr \<Rightarrow> (astate \<Rightarrow> astate) \<Rightarrow> bool \<Rightarrow> astate" where
  "asyncModule st mo body hasAwait =
     (let st1 = (if hasAwait
                 then st\<lparr>queues := (queues st)(nextQueue st := \<lparr>resolved = True, entries = []\<rparr>),
                         nextQueue := Suc (nextQueue st)\<rparr>
                 else st);
          qu = (if hasAwait then Some (nextQueue st) else None);
          b1 = (case exports (modules (base st1) mo) of
                  VObj r \<Rightarrow> ensureDynamicExports (base st1) mo r
                | _ \<Rightarrow> base st1);
          exps = exports (modules b1 mo);
          (promise, b2) = alloc b1 False (Some promisePrototype) [];
          b3 = setModule b2 mo ((modules b2 mo)\<lparr>exports := VObj promise, namespaceObject := VObj promise\<rparr>);
          self = ident promise;
          m = nextMod st1;
          st2 = st1\<lparr>amods := (amods st1)(m :=
                       \<lparr>am_queue = qu, am_depQueues = [], am_exports = exps,
                        am_promise = self, am_settled = None\<rparr>),
                    ext := (ext st1)(self \<mapsto> \<lparr>x_exports = exps, x_error = VUndefined, x_owner = m\<rparr>),
                    thenable := (thenable st1)(self := True),
                    base := b3,
                    nextMod := Suc m\<rparr>;
          st3 = body st2
      in case qu of
           None \<Rightarrow> st3
         | Some q \<Rightarrow> st3\<lparr>queues := (queues st3)(q := (queues st3 q)\<lparr>resolved := False\<rparr>)\<rparr>)"

text \<open>
  What can happen to the resolver state: a queue is resolved, a module body calls
  \<^verbatim>\<open>handleAsyncDependencies\<close> or \<^verbatim>\<open>asyncResult\<close>, a wrapped promise settles, or a module is
  instantiated by \<^verbatim>\<open>asyncModule\<close>, its body making further calls before it returns.
\<close>

datatype event =
    Resolve nat
  | Register nat "val list"
  | Settle nat settled
  | Result nat val
  | AsyncModule maddr bool "event list"

fun step :: "astate \<Rightarrow> event \<Rightarrow> astate" where
  "step st (Resolve q) = resolveQueue st (Some q)"
| "step st (Register m deps) = snd (handleAsyncDependencies st m deps)"
| "step st (Settle h outcome) = thenCallback st h outcome"
| "step st (Result m err) = asyncResult st m err"
| "step st (AsyncModule mo hasAwait body) = asyncModule st mo (\<lambda>s. foldl step s body) hasAwait"

definition run :: "astate \<Rightarrow> event list \<Rightarrow> astate" where
  "run st evs = foldl step st evs"

text \<open>\<^verbatim>\<open>typeof\<close> of what \<^verbatim>\<open>handleAsyncDependencies\<close> returns or its promise resolves to.\<close>

fun typeofH :: "hval \<Rightarrow> string" where
  "typeofH (HArray _) = ''object''"
| "typeofH (HFunction _) = ''function''"
| "typeofH (HPromise _) = ''object''"

text \<open>
  In the words of the specification: the queues a continuation is registered against,
  those of them that are still unresolved, and the invariant of a continuation. While
  some of its queues are unresolved its pending-count is their number and it has not
  been called; once all are resolved it has been called once (and the count rests at
  \<open>-1\<close>, where the second pass of \<^verbatim>\<open>resolveQueue\<close> leaves it); a continuation registered
  against no queue has count 0 and is never called.
\<close>

definition registered :: "astate \<Rightarrow> nat \<Rightarrow> nat list" where
  "registered st f = filter (\<lambda>q. f \<in> set (entries (queues st q))) [0..<nextQueue st]"

definition pending :: "astate \<Rightarrow> nat \<Rightarrow> nat list" where
  "pending st f = filter (\<lambda>q. \<not> resolved (queues st q)) (registered st f)"

definition continuationOk :: "astate \<Rightarrow> nat \<Rightarrow> bool" where
  "continuationOk st f =
     ((pending st f \<noteq> [] \<longrightarrow>
         queueCount (fns st f) = int (length (pending st f)) \<and> calls (fns st f) = 0) \<and>
      (pending st f = [] \<and> registered st f \<noteq> [] \<longrightarrow>
         queueCount (fns st f) = - 1 \<and> calls (fns st f) = 1) \<and>
      (registered st f = [] \<longrightarrow> queueCount (fns st f) = 0 \<and> calls (fns st f) = 0))"

text \<open>
  Well-formed resolver states: identities in use have been allocated, no continuation
  is twice in a queue, and every allocated continuation satisfies its invariant.
\<close>

definition wellFormed :: "astate \<Rightarrow> bool" where
  "wellFormed st =
     ((\<forall>q. nextQueue st \<le> q \<longrightarrow> entries (queues st q) = []) \<and>
      (\<forall>q. \<forall>f \<in> set (entries (queues st q)). f < nextFn st) \<and>
      (\<forall>q. distinct (entries (queues st q))) \<and>
      (\<forall>m q. am_queue (amods st m) = Some q \<longrightarrow> q < nextQueue st) \<and>
      (\<forall>m. \<forall>q \<in> set (am_depQueues (amods st m)). q < nextQueue st) \<and>
      (\<forall>h. h < nextWrapped st \<longrightarrow> w_queue (wrappedDeps st h) < nextQueue st) \<and>
      (\<forall>f. f < nextFn st \<longrightarrow> continuationOk st f))"



section \<open>Notions used in the proofs about the resolver\<close>

text \<open>
  What one pass of \<^verbatim>\<open>resolveQueue\<close> does to a continuation of the queue: the first pass
  decrements its count, the second calls it when the count has reached zero.
\<close>

definition afterResolve :: "asyncFn \<Rightarrow> asyncFn" where
  "afterResolve fn =
     (if queueCount fn = 1 then fn\<lparr>queueCount := - 1, calls := Suc (calls fn)\<rparr>
      else fn\<lparr>queueCount := queueCount fn - 1\<rparr>)"

definition settled1 :: "asyncFn \<Rightarrow> asyncFn" where
  "settled1 fn =
     (if queueCount fn \<noteq> 0 then fn else fn\<lparr>queueCount := - 1, calls := Suc (calls fn)\<rparr>)"

text \<open>Everything of the state but the continuations and the promises.\<close>

definition rest :: "astate \<Rightarrow>
    (nat \<Rightarrow> queue) \<times> nat \<times> nat \<times> (addr \<rightharpoonup> extSlots) \<times> (nat \<Rightarrow> wrapped) \<times> nat \<times>
    (nat \<Rightarrow> asyncMod) \<times> nat \<times> (addr \<Rightarrow> bool) \<times> state \<times> nat" where
  "rest st = (queues st, nextQueue st, nextFn st, ext st, wrappedDeps st, nextWrapped st,
              amods st, nextMod st, thenable st, base st, nextPromise st)"

text \<open>
  \<open>extends st st'\<close>: the later state has all continuations and queues of the earlier one,
  and the earlier continuations are in the same queues. A queue is \<open>quiet\<close> when it is
  flagged resolved and holds no continuation, as the queue of a module is while its body
  runs.
\<close>

definition extends :: "astate \<Rightarrow> astate \<Rightarrow> bool" where
  "extends st st' =
     (nextFn st \<le> nextFn st' \<and> nextQueue st \<le> nextQueue st' \<and>
      (\<forall>f q. f < nextFn st \<longrightarrow>
         (f \<in> set (entries (queues st' q))) = (f \<in> set (entries (queues st q)))))"

definition quiet :: "astate \<Rightarrow> nat \<Rightarrow> bool" where
  "quiet st q = (q < nextQueue st \<and> resolved (queues st q) \<and> entries (queues st q) = [])"

definition keeps :: "astate \<Rightarrow> astate \<Rightarrow> bool" where
  "keeps st st' = (wellFormed st' \<and> extends st st' \<and> (\<forall>x. quiet st x \<longrightarrow> quiet st' x))"

text \<open>
  During the registration loop of \<^verbatim>\<open>handleAsyncDependencies\<close> for the continuation \<open>f\<close> of
  module \<open>m\<close>: \<open>f\<close> has not been called, and every queue that holds it is unresolved and
  noted in \<^verbatim>\<open>depQueues\<close>. \<open>loopInv\<close> adds what the loop leaves as it was at its start
  \<open>s0\<close>; \<open>untouched\<close> is the loop when every queue offered is resolved.
\<close>

fun validHandle :: "astate \<Rightarrow> dephandle \<Rightarrow> bool" where
  "validHandle st (HWrapped h) = (h < nextWrapped st)"
| "validHandle st _ = True"

definition registering :: "nat \<Rightarrow> nat \<Rightarrow> astate \<Rightarrow> bool" where
  "registering m f s =
     (f < nextFn s \<and> calls (fns s f) = 0 \<and>
      (\<forall>q. f \<in> set (entries (queues s q)) \<longrightarrow>
           q \<in> set (am_depQueues (amods s m)) \<and> \<not> resolved (queues s q)))"

definition loopInv :: "nat \<Rightarrow> nat \<Rightarrow> astate \<Rightarrow> astate \<Rightarrow> bool" where
  "loopInv m f s0 s =
     (wellFormed s \<and> registering m f s \<and>
      nextFn s = nextFn s0 \<and> nextQueue s = nextQueue s0 \<and> nextWrapped s = nextWrapped s0 \<and>
      wrappedDeps s = wrappedDeps s0 \<and> ext s = ext s0 \<and> promises s = promises s0 \<and>
      nextPromise s = nextPromise s0 \<and>
      (\<forall>g x. g \<noteq> f \<longrightarrow> (g \<in> set (entries (queues s x))) = (g \<in> set (entries (queues s0 x)))) \<and>
      (\<forall>x. resolved (queues s x) = resolved (queues s0 x)) \<and>
      (\<forall>x. entries (queues s0 x) = [] \<and> resolved (queues s0 x) \<longrightarrow> entries (queues s x) = []) \<and>
      (\<forall>g. g \<noteq> f \<longrightarrow> fns s g = fns s0 g) \<and>
      resolves (fns s f) = resolves (fns s0 f) \<and> yields (fns s f) = yields (fns s0 f))"

definition untouched :: "nat \<Rightarrow> astate \<Rightarrow> astate \<Rightarrow> bool" where
  "untouched m s0 s =
     (queues s = queues s0 \<and> fns s = fns s0 \<and> ext s = ext s0 \<and> wrappedDeps s = wrappedDeps s0 \<and>
      promises s = promises s0 \<and>
      (\<forall>k. am_queue (amods s k) = am_queue (amods s0 k)) \<and>
      (\<forall>k. k \<noteq> m \<longrightarrow> amods s k = amods s0 k) \<and>
      (\<forall>q \<in> set (am_depQueues (amods s m)).
         q \<in> set (am_depQueues (amods s0 m)) \<or> resolved (queues s0 q)))"

section \<open>Concrete states\<close>

definition emptyModule :: module where
  "emptyModule = \<lparr>exports = VUndefined, error = VUndefined, namespaceObject = VUndefined, reexported = None\<rparr>"

text \<open>No object allocated yet but the five built-in prototypes.\<close>

definition initialState :: state where
  "initialState = \<lparr>store = (\<lambda>_. []), modules = (\<lambda>_. emptyModule), proxies = Map.empty, fresh = 5\<rparr>"

text \<open>Three plain objects, and an instance \<open>instA\<close> of a class whose prototype object is \<open>objB\<close>.\<close>

definition objA :: ref where "objA = Ref 10 False (Some objectPrototype)"

definition objB :: ref where "objB = Ref 11 False (Some objectPrototype)"

definition objC :: ref where "objC = Ref 12 False (Some objectPrototype)"


definition objD :: ref where "objD = Ref 13 False (Some objectPrototype)"

text \<open>
  Module 1 has the exports object \<open>objD\<close> behind its proxy \<open>proxyB\<close>, with the one
  source \<open>objB\<close>; module 0 has the exports object \<open>objA\<close> and no view yet.
\<close>

definition proxyB :: ref where "proxyB = Ref 14 False (Some objectPrototype)"

definition reexportStore :: store where
  "reexportStore = (\<lambda>_. [])
     (10 := [(KStr ''a'', Data (VNum 1))],
      11 := [(KStr ''b'', Data (VNum 2)), (KStr ''default'', Data (VNum 9)), (KStr ''a'', Data (VNum 5))],
      12 := [(KStr ''b'', Data (VNum 3)), (KStr ''c'', Data (VNum 4))])"

definition reexportState :: state where
  "reexportState = \<lparr>store = reexportStore,
                     modules = (\<lambda>_. emptyModule\<lparr>exports := VObj objA\<rparr>)
                       (1 := \<lparr>exports = VObj proxyB, error = VUndefined,
                              namespaceObject = VObj proxyB, reexported = Some [VObj objB]\<rparr>),
                     proxies = [14 \<mapsto> (objD, 1)], fresh = 15\<rparr>"


text \<open>A registry that has one module record, at address 0, and never runs anything.\<close>

definition alwaysModule0 :: registry where
  "alwaysModule0 st moduleId sourceModule = (Normal 0, st)"

definition esmState :: state where
  "esmState = \<lparr>store = (\<lambda>_. []), modules = (\<lambda>_. emptyModule\<lparr>exports := VObj objA\<rparr>),
                proxies = Map.empty, fresh = 13\<rparr>"

definition publishedState :: state where
  "publishedState = esmExport esmState 0 objA []"

definition failedState :: state where
  "failedState = \<lparr>store = (\<lambda>_. []), modules = (\<lambda>_. emptyModule\<lparr>error := VObj objB\<rparr>),
                proxies = Map.empty, fresh = 13\<rparr>"

text \<open>
  The resolver before anything has run: the module records 0 and 1 have the exports
  objects \<open>objA\<close> and \<open>objB\<close>, and the object at address 20 is a promise.
\<close>

definition asyncBase :: state where
  "asyncBase = \<lparr>store = (\<lambda>_. []),
                 modules = (\<lambda>_. emptyModule)
                   (0 := emptyModule\<lparr>exports := VObj objA\<rparr>, 1 := emptyModule\<lparr>exports := VObj objB\<rparr>),
                 proxies = Map.empty, fresh = 30\<rparr>"

definition initialAsync :: astate where
  "initialAsync =
     \<lparr>queues = (\<lambda>_. \<lparr>resolved = False, entries = []\<rparr>), nextQueue = 0,
      fns = (\<lambda>_. \<lparr>queueCount = 0, calls = 0, resolves = 0, yields = []\<rparr>), nextFn = 0,
      promises = (\<lambda>_. Pending), nextPromise = 0,
      ext = Map.empty,
      wrappedDeps = (\<lambda>_. \<lparr>w_exports = VUndefined, w_error = VUndefined, w_queue = 0\<rparr>),
      nextWrapped = 0,
      thenable = (\<lambda>a. a = 20),
      amods = (\<lambda>_. \<lparr>am_queue = None, am_depQueues = [], am_exports = VUndefined,
                     am_promise = 0, am_settled = None\<rparr>),
      nextMod = 0,
      base = asyncBase\<rparr>"

definition promise20 :: val where
  "promise20 = VObj (Ref 20 False (Some promisePrototype))"

text \<open>
  The two modules have been instantiated with a queue each (queues 0 and 1; proxies at
  addresses 30 and 32, promises at addresses 31 and 33) and have run their bodies; then
  module 1 waits for module 0, for the promise at address 20 and for the plain value 5.
\<close>

definition promise31 :: val where
  "promise31 = VObj (Ref 31 False (Some promisePrototype))"

definition twoModules :: astate where
  "twoModules = run initialAsync [AsyncModule 0 True [], AsyncModule 1 True []]"

definition fanInDeps :: "val list" where
  "fanInDeps = [promise31, promise20, VNum 5]"

definition fanIn :: astate where
  "fanIn = snd (handleAsyncDependencies twoModules 1 fanInDeps)"




section \<open>Property reads\<close>

lemma get_own_data:
  "vw (ident r) = None \<Longrightarrow> map_of (s (ident r)) k = Some (Data v) \<Longrightarrow> get d vw s r k = Some v"
  by (cases r) simp



section \<open>Lookup helper\<close>

text \<open>
  Claim C9. With \<open>returnPromise = false\<close>, \<^verbatim>\<open>moduleLookup\<close> does what calling the entry
  does when the map owns the name. When it does not, the call throws a new error object
  whose \<^verbatim>\<open>code\<close> is \<^verbatim>\<open>"MODULE_NOT_FOUND"\<close> (the object is new, hence no proxy, whatever
  the proxies are); with \<open>returnPromise = true\<close> the call returns normally, with a pending
  promise whose queued job rejects it with that same error.
\<close>

theorem moduleLookup_spec:
  "(mp name = Some f \<longrightarrow>
      moduleLookup st mp name False =
        (case f st of (Normal v, st') \<Rightarrow> (Normal (Plain v), st') | (Throw x, st') \<Rightarrow> (Throw x, st'))) \<and>
   (mp name = None \<longrightarrow>
      (\<exists>e st'. moduleLookup st mp name False = (Throw (VObj e), st') \<and>
               (\<forall>vw. vw (ident e) = None \<longrightarrow>
                  get d vw (store st') e (KStr ''code'') = Some (VStr ''MODULE_NOT_FOUND'')) \<and>
               moduleLookup st mp name True = (Normal (PendingThen (Throw (VObj e))), st') \<and>
               runJob (PendingThen (Throw (VObj e))) = Some (Rejected (VObj e))))"
  by (auto simp: moduleLookup_def newError_def alloc_def setProps_def Let_def errorPrototype_def
      intro!: get_own_data)

theorem moduleLookup_spec_witness:
  "moduleLookup initialState [''a'' \<mapsto> (\<lambda>st. (Normal (VNum 1), st))] ''a'' False
     = (Normal (Plain (VNum 1)), initialState) \<and>
   (\<exists>e st'. moduleLookup initialState Map.empty ''missing'' False = (Throw (VObj e), st') \<and>
            get 0 (viewsOf st') (store st') e (KStr ''code'') = Some (VStr ''MODULE_NOT_FOUND'') \<and>
            moduleLookup initialState Map.empty ''missing'' True
              = (Normal (PendingThen (Throw (VObj e))), st') \<and>
            runJob (PendingThen (Throw (VObj e))) = Some (Rejected (VObj e)))"
proof -
  from moduleLookup_spec [of "Map.empty" "''missing''" undefined initialState 0]
  obtain e st' where thrown: "moduleLookup initialState Map.empty ''missing'' False = (Throw (VObj e), st')"
    and code: "\<forall>vw. vw (ident e) = None \<longrightarrow>
                 get 0 vw (store st') e (KStr ''code'') = Some (VStr ''MODULE_NOT_FOUND'')"
    and later: "moduleLookup initialState Map.empty ''missing'' True
                  = (Normal (PendingThen (Throw (VObj e))), st')"
    by auto
  from thrown have "proxies st' = Map.empty"
    by (auto simp: moduleLookup_def newError_def alloc_def setProps_def Let_def initialState_def)
  then have "viewsOf st' (ident e) = None"
    by (simp add: viewsOf_def)
  with code have "get 0 (viewsOf st') (store st') e (KStr ''code'') = Some (VStr ''MODULE_NOT_FOUND'')"
    by blast
  with thrown later
  have "\<exists>e st'. moduleLookup initialState Map.empty ''missing'' False = (Throw (VObj e), st') \<and>
            get 0 (viewsOf st') (store st') e (KStr ''code'') = Some (VStr ''MODULE_NOT_FOUND'') \<and>
            moduleLookup initialState Map.empty ''missing'' True
              = (Normal (PendingThen (Throw (VObj e))), st') \<and>
            runJob (PendingThen (Throw (VObj e))) = Some (Rejected (VObj e))"
    by auto
  moreover from moduleLookup_spec [of "[''a'' \<mapsto> (\<lambda>st. (Normal (VNum 1), st))]" "''a''"
                              "\<lambda>st. (Normal (VNum 1), st)" initialState 0]
  have "moduleLookup initialState [''a'' \<mapsto> (\<lambda>st. (Normal (VNum 1), st))] ''a'' False
     = (Normal (Plain (VNum 1)), initialState)"
    by simp
  ultimately show ?thesis by blast
qed

section \<open>Dynamic re-export view\<close>

lemma foldl_pushNew:
  "distinct ks \<Longrightarrow>
   foldl pushNew acc ks = acc @ filter (\<lambda>k. k \<noteq> KStr ''default'' \<and> k \<notin> set acc) ks"
proof (induction ks arbitrary: acc)
  case Nil
  then show ?case by simp
next
  case (Cons k ks)
  have rest: "filter (\<lambda>x. x \<noteq> KStr ''default'' \<and> x \<notin> set (acc @ [k])) ks
            = filter (\<lambda>x. x \<noteq> KStr ''default'' \<and> x \<notin> set acc) ks"
    using Cons.prems by (intro filter_cong) auto
  show ?case
  proof (cases "k \<noteq> KStr ''default'' \<and> k \<notin> set acc")
    case True
    then have "pushNew acc k = acc @ [k]" by (simp add: pushNew_def)
    with Cons True rest show ?thesis by simp
  next
    case False
    then have "pushNew acc k = acc" by (auto simp: pushNew_def)
    with Cons False show ?thesis by auto
  qed
qed

lemma foldl_pushNew_distinct: "distinct acc \<Longrightarrow> distinct (foldl pushNew acc ks)"
  by (induction ks arbitrary: acc) (auto simp: pushNew_def)

lemma mergeKeys_distinct:
  "distinct keys \<Longrightarrow> mergeKeys keysOf keys xs = Some ks \<Longrightarrow> distinct ks"
proof (induction xs arbitrary: keys)
  case Nil
  then show ?case by simp
next
  case (Cons x xs)
  then show ?case
    by (auto split: option.splits intro: foldl_pushNew_distinct)
qed

lemma sources_after:
  assumes "sourcesOf st m = []" "typeof R1 = ''object''" "R1 \<noteq> VNull"
    "typeof R2 = ''object''" "R2 \<noteq> VNull"
  shows "sourcesOf (dynamicExport (dynamicExport st m exps R1) m exps R2) m = [R1, R2]"
    and "store (dynamicExport (dynamicExport st m exps R1) m exps R2) = store st"
    and "reexported (modules st m) = None \<longrightarrow>
           proxies (dynamicExport (dynamicExport st m exps R1) m exps R2) (fresh st) = Some (exps, m)"
  using assms
  by (auto simp: dynamicExport_def ensureDynamicExports_def setModule_def sourcesOf_def Let_def
      split: option.splits)

text \<open>
  Claim C4. A module whose source list is empty or not yet created registers \<open>R1\<close>, then
  \<open>R2\<close>; \<open>a\<close> is the proxy of the module, \<open>target\<close> its target (the view is created by the
  first call when the module had none). Reading through the proxy a property that the
  target does not own and that is neither \<^verbatim>\<open>default\<close> nor \<^verbatim>\<open>__esModule\<close> gives what
  \<^verbatim>\<open>Reflect.get\<close> gives on \<open>R1\<close> unless that is \<^verbatim>\<open>undefined\<close>, else what it gives on \<open>R2\<close>
  unless that is \<^verbatim>\<open>undefined\<close>, else \<^verbatim>\<open>undefined\<close>. The keys of the proxy are the own keys of
  the target, then the keys \<^verbatim>\<open>Reflect.ownKeys\<close> gives on \<open>R1\<close> not seen before, then those
  of \<open>R2\<close> not seen before, \<^verbatim>\<open>default\<close> of a source left out; no key is listed twice. A
  source may itself be a proxy: it is read, and its keys are listed, through its traps.
\<close>

theorem dynamic_reexport_order:
  assumes "sourcesOf st m = []"
    and "typeof R1 = ''object''" "R1 \<noteq> VNull" "typeof R2 = ''object''" "R2 \<noteq> VNull"
    and "proxies (dynamicExport (dynamicExport st m exps R1) m exps R2) a = Some (target, m)"
  shows "(\<not> hasOwnProperty (store st) target prop \<and> prop \<noteq> KStr ''default'' \<and>
          prop \<noteq> KStr ''__esModule'' \<longrightarrow>
           readProxy d (dynamicExport (dynamicExport st m exps R1) m exps R2) a prop =
             (case getV d (viewsOf (dynamicExport (dynamicExport st m exps R1) m exps R2))
                     (store st) R1 prop of
                None \<Rightarrow> None
              | Some v1 \<Rightarrow>
                  if v1 \<noteq> VUndefined then Some v1
                  else (case getV d (viewsOf (dynamicExport (dynamicExport st m exps R1) m exps R2))
                               (store st) R2 prop of
                          None \<Rightarrow> None
                        | Some v2 \<Rightarrow> if v2 \<noteq> VUndefined then Some v2 else Some VUndefined))) \<and>
         (\<forall>k1 k2.
            ownKeysV d (viewsOf (dynamicExport (dynamicExport st m exps R1) m exps R2)) (store st) R1
              = Some k1 \<and>
            ownKeysV d (viewsOf (dynamicExport (dynamicExport st m exps R1) m exps R2)) (store st) R2
              = Some k2 \<and> distinct k1 \<and> distinct k2 \<longrightarrow>
            keysProxy d (dynamicExport (dynamicExport st m exps R1) m exps R2) a =
              Some (ownKeys (store st) target
                    @ filter (\<lambda>k. k \<noteq> KStr ''default'' \<and> k \<notin> set (ownKeys (store st) target)) k1
                    @ filter (\<lambda>k. k \<noteq> KStr ''default'' \<and> k \<notin> set (ownKeys (store st) target)
                                   \<and> k \<notin> set k1) k2)) \<and>
         (distinct (ownKeys (store st) target) \<longrightarrow>
           (\<forall>ks. keysProxy d (dynamicExport (dynamicExport st m exps R1) m exps R2) a = Some ks
                 \<longrightarrow> distinct ks)) \<and>
         (reexported (modules st m) = None \<longrightarrow>
            proxies (dynamicExport (dynamicExport st m exps R1) m exps R2) (fresh st) = Some (exps, m))"
proof -
  let ?st2 = "dynamicExport (dynamicExport st m exps R1) m exps R2"
  note r = sources_after [OF assms(1-5), of exps]
  have "\<not> hasOwnProperty (store st) target prop \<and> prop \<noteq> KStr ''default'' \<and>
          prop \<noteq> KStr ''__esModule'' \<longrightarrow>
           readProxy d ?st2 a prop =
             (case getV d (viewsOf ?st2) (store st) R1 prop of
                None \<Rightarrow> None
              | Some v1 \<Rightarrow>
                  if v1 \<noteq> VUndefined then Some v1
                  else (case getV d (viewsOf ?st2) (store st) R2 prop of
                          None \<Rightarrow> None
                        | Some v2 \<Rightarrow> if v2 \<noteq> VUndefined then Some v2 else Some VUndefined))"
    by (auto simp: readProxy_def assms(6) r proxyGet_def split: option.splits)
  moreover have "\<forall>k1 k2.
            ownKeysV d (viewsOf ?st2) (store st) R1 = Some k1 \<and>
            ownKeysV d (viewsOf ?st2) (store st) R2 = Some k2 \<and> distinct k1 \<and> distinct k2 \<longrightarrow>
            keysProxy d ?st2 a =
              Some (ownKeys (store st) target
                    @ filter (\<lambda>k. k \<noteq> KStr ''default'' \<and> k \<notin> set (ownKeys (store st) target)) k1
                    @ filter (\<lambda>k. k \<noteq> KStr ''default'' \<and> k \<notin> set (ownKeys (store st) target)
                                   \<and> k \<notin> set k1) k2)"
    by (auto simp: keysProxy_def assms(6) r proxyOwnKeys_def foldl_pushNew intro!: filter_cong)
  moreover have "distinct (ownKeys (store st) target) \<longrightarrow>
           (\<forall>ks. keysProxy d ?st2 a = Some ks \<longrightarrow> distinct ks)"
    by (auto simp: keysProxy_def assms(6) proxyOwnKeys_def r(2) dest: mergeKeys_distinct [rotated])
  ultimately show ?thesis
    using r(3) by blast
qed

lemma reexportState_facts:
  "sourcesOf reexportState 0 = []"
  "proxies (dynamicExport (dynamicExport reexportState 0 objA (VObj proxyB)) 0 objA (VObj objC)) 15
     = Some (objA, 0)"
  "store reexportState = reexportStore"
  "viewsOf (dynamicExport (dynamicExport reexportState 0 objA (VObj proxyB)) 0 objA (VObj objC))
     = [14 \<mapsto> (objD, [VObj objB]), 15 \<mapsto> (objA, [VObj proxyB, VObj objC])]"
  by (auto simp: reexportState_def sourcesOf_def emptyModule_def dynamicExport_def
      ensureDynamicExports_def setModule_def Let_def proxyB_def objC_def viewsOf_def fun_eq_iff)

theorem dynamic_reexport_order_witness:
  "sourcesOf reexportState 0 = [] \<and>
   typeof (VObj proxyB) = ''object'' \<and> typeof (VObj objC) = ''object'' \<and>
   proxies (dynamicExport (dynamicExport reexportState 0 objA (VObj proxyB)) 0 objA (VObj objC)) 15
     = Some (objA, 0) \<and>
   \<not> hasOwnProperty (store reexportState) objA (KStr ''b'') \<and>
   readProxy (Suc 0) (dynamicExport (dynamicExport reexportState 0 objA (VObj proxyB)) 0 objA (VObj objC))
     15 (KStr ''b'') = Some (VNum 2) \<and>
   readProxy (Suc 0) (dynamicExport (dynamicExport reexportState 0 objA (VObj proxyB)) 0 objA (VObj objC))
     15 (KStr ''c'') = Some (VNum 4) \<and>
   readProxy (Suc 0) (dynamicExport (dynamicExport reexportState 0 objA (VObj proxyB)) 0 objA (VObj objC))
     15 (KStr ''zz'') = Some VUndefined \<and>
   keysProxy (Suc 0) (dynamicExport (dynamicExport reexportState 0 objA (VObj proxyB)) 0 objA (VObj objC)) 15
     = Some [KStr ''a'', KStr ''b'', KStr ''c'']"
proof -
  have ty: "typeof (VObj proxyB) = ''object''" "VObj proxyB \<noteq> VNull"
    "typeof (VObj objC) = ''object''" "VObj objC \<noteq> VNull"
    by (simp_all add: proxyB_def objC_def)
  note t = dynamic_reexport_order [OF reexportState_facts(1) ty reexportState_facts(2),
      unfolded reexportState_facts(3,4)]
  have own: "ownKeys reexportStore objA = [KStr ''a'']"
    "\<And>k. hasOwnProperty reexportStore objA k = (k = KStr ''a'')"
    by (auto simp: ownKeys_def hasOwnProperty_def reexportStore_def objA_def)
  have k1: "ownKeysV (Suc 0) [14 \<mapsto> (objD, [VObj objB]), 15 \<mapsto> (objA, [VObj proxyB, VObj objC])]
              reexportStore (VObj proxyB) = Some [KStr ''b'', KStr ''a'']"
    by (simp add: proxyB_def objB_def objD_def ownKeys_def reexportStore_def pushNew_def)
  have k2: "ownKeysV (Suc 0) [14 \<mapsto> (objD, [VObj objB]), 15 \<mapsto> (objA, [VObj proxyB, VObj objC])]
              reexportStore (VObj objC) = Some [KStr ''b'', KStr ''c'']"
    by (simp add: objC_def ownKeys_def reexportStore_def)
  have rd: "getV (Suc 0) [14 \<mapsto> (objD, [VObj objB]), 15 \<mapsto> (objA, [VObj proxyB, VObj objC])]
              reexportStore (VObj proxyB) (KStr ''b'') = Some (VNum 2)"
    "getV (Suc 0) [14 \<mapsto> (objD, [VObj objB]), 15 \<mapsto> (objA, [VObj proxyB, VObj objC])]
              reexportStore (VObj proxyB) (KStr ''c'') = Some VUndefined"
    "getV (Suc 0) [14 \<mapsto> (objD, [VObj objB]), 15 \<mapsto> (objA, [VObj proxyB, VObj objC])]
              reexportStore (VObj objC) (KStr ''c'') = Some (VNum 4)"
    "getV (Suc 0) [14 \<mapsto> (objD, [VObj objB]), 15 \<mapsto> (objA, [VObj proxyB, VObj objC])]
              reexportStore (VObj proxyB) (KStr ''zz'') = Some VUndefined"
    "getV (Suc 0) [14 \<mapsto> (objD, [VObj objB]), 15 \<mapsto> (objA, [VObj proxyB, VObj objC])]
              reexportStore (VObj objC) (KStr ''zz'') = Some VUndefined"
    by (simp_all add: proxyB_def objB_def objC_def objD_def hasOwnProperty_def reexportStore_def
        objectPrototype_def)
  from t [of "KStr ''b''" "Suc 0", THEN conjunct1] have b: "readProxy (Suc 0)
      (dynamicExport (dynamicExport reexportState 0 objA (VObj proxyB)) 0 objA (VObj objC))
      15 (KStr ''b'') = Some (VNum 2)"
    by (simp add: own rd del: getV.simps)
  from t [of "KStr ''c''" "Suc 0", THEN conjunct1] have c: "readProxy (Suc 0)
      (dynamicExport (dynamicExport reexportState 0 objA (VObj proxyB)) 0 objA (VObj objC))
      15 (KStr ''c'') = Some (VNum 4)"
    by (simp add: own rd del: getV.simps)
  from t [of "KStr ''zz''" "Suc 0", THEN conjunct1] have z: "readProxy (Suc 0)
      (dynamicExport (dynamicExport reexportState 0 objA (VObj proxyB)) 0 objA (VObj objC))
      15 (KStr ''zz'') = Some VUndefined"
    by (simp add: own rd del: getV.simps)
  from t [of "KStr ''b''" "Suc 0", THEN conjunct2, THEN conjunct1, THEN spec, THEN spec,
      of "[KStr ''b'', KStr ''a'']" "[KStr ''b'', KStr ''c'']"] have k: "keysProxy (Suc 0)
      (dynamicExport (dynamicExport reexportState 0 objA (VObj proxyB)) 0 objA (VObj objC)) 15
      = Some [KStr ''a'', KStr ''b'', KStr ''c'']"
    by (simp add: own k1 k2 del: ownKeysV.simps)
  from b c z k ty reexportState_facts(1,2) own(2) show ?thesis
    by (simp add: reexportState_facts(3))
qed

text \<open>
  Claim C10. When the source argument of \<^verbatim>\<open>dynamicExport\<close> is not a non-null value of type
  \<^verbatim>\<open>"object"\<close>, the call is \<^verbatim>\<open>ensureDynamicExports\<close> alone: the view exists afterwards (it is
  created when the module had none) and the source list is what it was, or empty when
  new. Reads and key listings through the proxy depend on the state only, so the
  argument is never consulted.
\<close>

theorem dynamicExport_non_object:
  assumes "\<not> (typeof object = ''object'' \<and> object \<noteq> VNull)"
  shows "dynamicExport st m exps object = ensureDynamicExports st m exps \<and>
         reexported (modules (dynamicExport st m exps object) m)
           = Some (case reexported (modules st m) of None \<Rightarrow> [] | Some xs \<Rightarrow> xs) \<and>
         (reexported (modules st m) = None \<longrightarrow>
            proxies (dynamicExport st m exps object) (fresh st) = Some (exps, m) \<and>
            exports (modules (dynamicExport st m exps object) m)
              = VObj (Ref (fresh st) (callable exps) (proto exps)) \<and>
            namespaceObject (modules (dynamicExport st m exps object) m)
              = VObj (Ref (fresh st) (callable exps) (proto exps))) \<and>
         (reexported (modules st m) \<noteq> None \<longrightarrow> dynamicExport st m exps object = st)"
  using assms
  by (auto simp: dynamicExport_def ensureDynamicExports_def Let_def split: option.splits)

theorem dynamicExport_non_object_witness:
  "\<not> (typeof (VNum 3) = ''object'' \<and> VNum 3 \<noteq> VNull) \<and>
   \<not> (typeof VNull = ''object'' \<and> VNull \<noteq> VNull) \<and>
   reexported (modules esmState 0) = None \<and>
   reexported (modules (dynamicExport esmState 0 objA (VNum 3)) 0) = Some [] \<and>
   proxies (dynamicExport esmState 0 objA (VNum 3)) 13 = Some (objA, 0) \<and>
   dynamicExport (dynamicExport esmState 0 objA (VObj objB)) 0 objA VNull
     = dynamicExport esmState 0 objA (VObj objB) \<and>
   reexported (modules (dynamicExport (dynamicExport esmState 0 objA (VObj objB)) 0 objA VNull) 0)
     = Some [VObj objB]"
proof -
  have none: "reexported (modules esmState 0) = None" "fresh esmState = 13"
    by (simp_all add: esmState_def emptyModule_def)
  have some: "reexported (modules (dynamicExport esmState 0 objA (VObj objB)) 0) = Some [VObj objB]"
    by (simp add: dynamicExport_def ensureDynamicExports_def none setModule_def Let_def objB_def)
  have h1: "\<not> (typeof (VNum 3) = ''object'' \<and> VNum 3 \<noteq> VNull)"
    and h2: "\<not> (typeof VNull = ''object'' \<and> VNull \<noteq> VNull)"
    by simp_all
  note a = dynamicExport_non_object [OF h1, of esmState 0 objA]
  note b = dynamicExport_non_object [OF h2, of "dynamicExport esmState 0 objA (VObj objB)" 0 objA]
  have "reexported (modules (dynamicExport esmState 0 objA (VNum 3)) 0) = Some []"
    using a [THEN conjunct2, THEN conjunct1] none by simp
  moreover have "proxies (dynamicExport esmState 0 objA (VNum 3)) 13 = Some (objA, 0)"
    using a [THEN conjunct2, THEN conjunct2, THEN conjunct1] none by simp
  moreover have "dynamicExport (dynamicExport esmState 0 objA (VObj objB)) 0 objA VNull
     = dynamicExport esmState 0 objA (VObj objB)"
    using b [THEN conjunct2, THEN conjunct2, THEN conjunct2] some by simp
  ultimately show ?thesis
    using h1 h2 none some by simp
qed

section \<open>Interop namespace\<close>


























section \<open>Imports\<close>

text \<open>
  Claim C8. When the record the registry returns carries a stored error (an \<^verbatim>\<open>Error\<close>
  object, hence truthy), \<^verbatim>\<open>esmImport\<close> and \<^verbatim>\<open>commonJsRequire\<close> both throw that same value and
  leave the state as the registry returned it: nothing is built, run or retried.
\<close>

theorem stored_error_rethrown:
  assumes "getOrInstantiateModuleFromParent st moduleId sourceModule = (Normal m, st1)"
    and "truthy (error (modules st1 m))"
  shows "esmImport d getOrInstantiateModuleFromParent st sourceModule moduleId
           = Some (Throw (error (modules st1 m)), st1) \<and>
         commonJsRequire getOrInstantiateModuleFromParent st sourceModule moduleId
           = (Throw (error (modules st1 m)), st1)"
  using assms by (simp add: esmImport_def commonJsRequire_def)

theorem stored_error_rethrown_witness:
  "alwaysModule0 failedState ''dep'' 1 = (Normal 0, failedState) \<and>
   truthy (error (modules failedState 0)) \<and>
   esmImport 0 alwaysModule0 failedState 1 ''dep'' = Some (Throw (VObj objB), failedState) \<and>
   commonJsRequire alwaysModule0 failedState 1 ''dep'' = (Throw (VObj objB), failedState)"
proof -
  have reg: "alwaysModule0 failedState ''dep'' 1 = (Normal 0, failedState)"
    by (simp add: alwaysModule0_def)
  have err: "error (modules failedState 0) = VObj objB"
    by (simp add: failedState_def emptyModule_def)
  then have "truthy (error (modules failedState 0))" by simp
  with stored_error_rethrown [where getOrInstantiateModuleFromParent = alwaysModule0
      and st = failedState and moduleId = "''dep''" and sourceModule = 1 and m = 0
      and ?st1.0 = failedState and d = 0] reg err
  show ?thesis by simp
qed

lemma publishedState_module:
  "modules publishedState 0 = emptyModule\<lparr>exports := VObj objA, namespaceObject := VObj objA\<rparr>"
  by (simp add: publishedState_def esmExport_def esmState_def setModule_def Let_def)

text \<open>
  Claim C7, as stated, fails: module 0 publishes its exports object \<open>objA\<close> as its
  namespace (\<^verbatim>\<open>esmExport\<close>) and an importer gets \<open>objA\<close>; then the module declares a dynamic
  re-export, which assigns the new proxy to \<^verbatim>\<open>namespaceObject\<close>, and the next importer gets
  the proxy, an object of another identity.
\<close>

theorem namespaceObject_reassigned:
  "namespaceObject (modules publishedState 0) = VObj objA \<and>
   esmImport 0 alwaysModule0 publishedState 1 ''dep'' = Some (Normal (VObj objA), publishedState) \<and>
   esmImport 0 alwaysModule0 (dynamicExport publishedState 0 objA (VObj objB)) 1 ''dep''
     = Some (Normal (VObj (Ref 13 False (Some objectPrototype))),
             dynamicExport publishedState 0 objA (VObj objB)) \<and>
   \<not> sameValue (VObj objA) (VObj (Ref 13 False (Some objectPrototype)))"
proof -
  have fresh: "fresh publishedState = 13" "reexported (modules publishedState 0) = None"
    by (simp_all add: publishedState_def esmExport_def esmState_def setModule_def Let_def emptyModule_def)
  have after: "modules (dynamicExport publishedState 0 objA (VObj objB)) 0
       = emptyModule\<lparr>exports := VObj (Ref 13 False (Some objectPrototype)),
                      namespaceObject := VObj (Ref 13 False (Some objectPrototype)),
                      reexported := Some [VObj objB]\<rparr>"
    by (simp add: dynamicExport_def ensureDynamicExports_def fresh publishedState_module setModule_def
        Let_def objA_def objB_def emptyModule_def)
  have "ident objA = 10" by (simp add: objA_def)
  then show ?thesis
    by (simp add: esmImport_def alwaysModule0_def publishedState_module after emptyModule_def)
qed

text \<open>
  Claim C7, amended. \<^verbatim>\<open>esmImport\<close> never replaces a namespace object it finds: on a record
  without stored error that has one, it returns it and leaves the state as the registry
  returned it. Whenever \<^verbatim>\<open>esmImport\<close> returns a value, that value is the record's
  \<^verbatim>\<open>namespaceObject\<close> afterwards, and every further \<^verbatim>\<open>esmImport\<close> that finds the record in
  that state returns the identical value and changes nothing.
\<close>

theorem esmImport_memo:
  assumes "getOrInstantiateModuleFromParent st moduleId sourceModule = (Normal m, st1)"
    and "\<not> truthy (error (modules st1 m))"
  shows "(truthy (namespaceObject (modules st1 m)) \<longrightarrow>
            esmImport d getOrInstantiateModuleFromParent st sourceModule moduleId
              = Some (Normal (namespaceObject (modules st1 m)), st1)) \<and>
         (\<forall>v st2. esmImport d getOrInstantiateModuleFromParent st sourceModule moduleId
                     = Some (Normal v, st2) \<longrightarrow>
              namespaceObject (modules st2 m) = v \<and> truthy v \<and> \<not> truthy (error (modules st2 m)) \<and>
              (\<forall>d' reg' src' id'. reg' st2 id' src' = (Normal m, st2) \<longrightarrow>
                 esmImport d' reg' st2 src' id' = Some (Normal v, st2)))"
proof -
  have cached: "truthy (namespaceObject (modules st1 m)) \<Longrightarrow>
        esmImport d getOrInstantiateModuleFromParent st sourceModule moduleId
          = Some (Normal (namespaceObject (modules st1 m)), st1)"
    using assms by (simp add: esmImport_def)
  have built: "namespaceObject (modules st2 m) = v \<and> truthy v \<and> \<not> truthy (error (modules st2 m))"
    if "esmImport d getOrInstantiateModuleFromParent st sourceModule moduleId = Some (Normal v, st2)"
    for v st2
  proof (cases "truthy (namespaceObject (modules st1 m))")
    case True
    with cached that assms show ?thesis by simp
  next
    case False
    with that assms show ?thesis
      by (auto simp: esmImport_def alloc_def setModule_def Let_def split: option.splits if_splits)
  qed
  have again: "esmImport d' reg' st2 src' id' = Some (Normal v, st2)"
    if "namespaceObject (modules st2 m) = v" "truthy v" "\<not> truthy (error (modules st2 m))"
      "reg' st2 id' src' = (Normal m, st2)" for d' reg' st2 src' id' v
    using that by (simp add: esmImport_def)
  show ?thesis
    using cached built again by blast
qed

theorem esmImport_memo_witness:
  "alwaysModule0 esmState ''dep'' 1 = (Normal 0, esmState) \<and>
   \<not> truthy (error (modules esmState 0)) \<and>
   \<not> truthy (namespaceObject (modules esmState 0)) \<and>
   (\<exists>st2. esmImport 0 alwaysModule0 esmState 1 ''dep''
            = Some (Normal (VObj (Ref 13 False (Some objectPrototype))), st2) \<and>
          namespaceObject (modules st2 0) = VObj (Ref 13 False (Some objectPrototype)) \<and>
          esmImport 5 alwaysModule0 st2 2 ''dep''
            = Some (Normal (VObj (Ref 13 False (Some objectPrototype))), st2)) \<and>
   truthy (namespaceObject (modules publishedState 0)) \<and>
   esmImport 0 alwaysModule0 publishedState 1 ''dep'' = Some (Normal (VObj objA), publishedState)"
proof -
  have reg: "alwaysModule0 esmState ''dep'' 1 = (Normal 0, esmState)"
    and reg': "alwaysModule0 publishedState ''dep'' 1 = (Normal 0, publishedState)"
    by (simp_all add: alwaysModule0_def)
  have ok: "\<not> truthy (error (modules esmState 0))" "\<not> truthy (namespaceObject (modules esmState 0))"
    and ok': "\<not> truthy (error (modules publishedState 0))"
      "namespaceObject (modules publishedState 0) = VObj objA"
    by (simp_all add: esmState_def emptyModule_def publishedState_module)
  obtain st2 where run: "esmImport 0 alwaysModule0 esmState 1 ''dep''
      = Some (Normal (VObj (Ref 13 False (Some objectPrototype))), st2)"
    by (simp add: esmImport_def alwaysModule0_def esmState_def emptyModule_def alloc_def Let_def objA_def
        objectPrototype_def viewsOf_def)
  have again: "alwaysModule0 st2 ''dep'' 2 = (Normal 0, st2)"
    by (simp add: alwaysModule0_def)
  from esmImport_memo [where getOrInstantiateModuleFromParent = alwaysModule0 and st = esmState
      and moduleId = "''dep''" and sourceModule = 1 and m = 0 and ?st1.0 = esmState and d = 0]
    reg ok(1) run again
  have "namespaceObject (modules st2 0) = VObj (Ref 13 False (Some objectPrototype)) \<and>
        esmImport 5 alwaysModule0 st2 2 ''dep''
          = Some (Normal (VObj (Ref 13 False (Some objectPrototype))), st2)"
    by blast
  moreover from esmImport_memo [where getOrInstantiateModuleFromParent = alwaysModule0
      and st = publishedState and moduleId = "''dep''" and sourceModule = 1 and m = 0
      and ?st1.0 = publishedState and d = 0] reg' ok'
  have "esmImport 0 alwaysModule0 publishedState 1 ''dep'' = Some (Normal (VObj objA), publishedState)"
    by simp
  ultimately show ?thesis
    using reg ok ok' run by auto
qed

section \<open>Async dependency resolver: the invariant\<close>

lemma decrement_rest: "rest (decrement st f) = rest st"
  by (simp add: rest_def decrement_def)

lemma decrement_fns:
  "fns (decrement st f) = (fns st)(f := (fns st f)\<lparr>queueCount := queueCount (fns st f) - 1\<rparr>)"
  by (simp add: decrement_def)

lemma foldl_decrement_rest: "rest (foldl decrement st es) = rest st"
  by (induction es arbitrary: st) (simp_all add: decrement_rest)

lemma foldl_decrement_fns:
  "distinct es \<Longrightarrow>
   fns (foldl decrement st es) g =
     (if g \<in> set es then (fns st g)\<lparr>queueCount := queueCount (fns st g) - 1\<rparr> else fns st g)"
  by (induction es arbitrary: st) (auto simp: decrement_fns)

lemma settleFn_rest: "rest (settleFn st f) = rest st"
  by (simp add: rest_def settleFn_def callFn_def increment_def decrement_def Let_def
      split: pstate.splits)

lemma settleFn_fns: "fns (settleFn st f) = (fns st)(f := settled1 (fns st f))"
  by (auto simp: settleFn_def callFn_def increment_def decrement_def Let_def settled1_def
      split: pstate.splits)

lemma foldl_settleFn_rest: "rest (foldl settleFn st es) = rest st"
  by (induction es arbitrary: st) (simp_all add: settleFn_rest)

lemma foldl_settleFn_fns:
  "distinct es \<Longrightarrow>
   fns (foldl settleFn st es) g = (if g \<in> set es then settled1 (fns st g) else fns st g)"
  by (induction es arbitrary: st) (auto simp: settleFn_fns)

lemma resolveQueue_fns:
  assumes "\<not> resolved (queues st q)" "distinct (entries (queues st q))"
  shows "fns (resolveQueue st (Some q)) g =
           (if g \<in> set (entries (queues st q)) then afterResolve (fns st g) else fns st g)"
proof -
  let ?st1 = "st\<lparr>queues := (queues st)(q := (queues st q)\<lparr>resolved := True\<rparr>)\<rparr>"
  have q: "queues (foldl decrement ?st1 (entries (queues st q))) = queues ?st1"
    using foldl_decrement_rest [of ?st1 "entries (queues st q)"] by (simp add: rest_def)
  show ?thesis
    using assms
    by (simp add: resolveQueue_def Let_def q foldl_settleFn_fns foldl_decrement_fns
        afterResolve_def settled1_def)
qed

lemma resolveQueue_rest:
  assumes "\<not> resolved (queues st q)"
  shows "rest (resolveQueue st (Some q)) =
           rest (st\<lparr>queues := (queues st)(q := (queues st q)\<lparr>resolved := True\<rparr>)\<rparr>)"
  using assms by (simp add: resolveQueue_def Let_def foldl_settleFn_rest foldl_decrement_rest)

lemma resolveQueue_noop: "resolved (queues st q) \<Longrightarrow> resolveQueue st (Some q) = st"
  by (simp add: resolveQueue_def)

lemma length_filter_without:
  "distinct xs \<Longrightarrow> q \<in> set xs \<Longrightarrow> P q \<Longrightarrow>
   length (filter P xs) = Suc (length (filter (\<lambda>x. x \<noteq> q \<and> P x) xs))"
proof (induction xs)
  case Nil
  then show ?case by simp
next
  case (Cons x xs)
  show ?case
  proof (cases "x = q")
    case True
    with Cons.prems have "q \<notin> set xs" by simp
    then have "filter (\<lambda>x. x \<noteq> q \<and> P x) xs = filter P xs"
      by (intro filter_cong) auto
    with True Cons.prems show ?thesis by simp
  next
    case False
    with Cons show ?thesis by simp
  qed
qed

lemma filter_without_absent:
  "q \<notin> set xs \<Longrightarrow> filter (\<lambda>x. x \<noteq> q \<and> P x) xs = filter P xs"
  by (intro filter_cong) auto

lemma registered_distinct: "distinct (registered st f)"
  by (simp add: registered_def)

lemma in_registered:
  "q \<in> set (registered st f) \<longleftrightarrow> q < nextQueue st \<and> f \<in> set (entries (queues st q))"
  by (auto simp: registered_def)

lemma resolveQueue_fields:
  assumes "\<not> resolved (queues st q)"
  shows "queues (resolveQueue st (Some q)) = (queues st)(q := (queues st q)\<lparr>resolved := True\<rparr>)"
    and "nextQueue (resolveQueue st (Some q)) = nextQueue st"
    and "nextFn (resolveQueue st (Some q)) = nextFn st"
    and "amods (resolveQueue st (Some q)) = amods st"
    and "wrappedDeps (resolveQueue st (Some q)) = wrappedDeps st"
    and "nextWrapped (resolveQueue st (Some q)) = nextWrapped st"
    and "ext (resolveQueue st (Some q)) = ext st"
    and "nextMod (resolveQueue st (Some q)) = nextMod st"
  using resolveQueue_rest [OF assms] by (simp_all add: rest_def)

lemma registered_resolveQueue: "registered (resolveQueue st qu) f = registered st f"
proof (cases qu)
  case None
  then show ?thesis by (simp add: resolveQueue_def)
next
  case (Some q)
  show ?thesis
  proof (cases "resolved (queues st q)")
    case True
    with Some show ?thesis by (simp add: resolveQueue_noop)
  next
    case False
    show ?thesis
      unfolding Some registered_def resolveQueue_fields [OF False]
      by (intro filter_cong) auto
  qed
qed

lemma pending_resolveQueue:
  assumes "\<not> resolved (queues st q)"
  shows "pending (resolveQueue st (Some q)) f =
           filter (\<lambda>x. x \<noteq> q \<and> \<not> resolved (queues st x)) (registered st f)"
  unfolding pending_def registered_resolveQueue resolveQueue_fields [OF assms]
  by (intro filter_cong) auto

lemma continuationOk_resolveQueue:
  assumes wf: "wellFormed st" and f: "f < nextFn st" and q: "\<not> resolved (queues st q)"
  shows "continuationOk (resolveQueue st (Some q)) f"
proof -
  let ?st' = "resolveQueue st (Some q)"
  from wf f have ok: "continuationOk st f" and dist: "distinct (entries (queues st q))"
    and alloc: "nextQueue st \<le> q \<Longrightarrow> entries (queues st q) = []"
    by (auto simp: wellFormed_def)
  have reg: "registered ?st' f = registered st f" by (rule registered_resolveQueue)
  have pend: "pending ?st' f = filter (\<lambda>x. x \<noteq> q \<and> \<not> resolved (queues st x)) (registered st f)"
    by (rule pending_resolveQueue [OF q])
  have fn: "fns ?st' f = (if f \<in> set (entries (queues st q)) then afterResolve (fns st f) else fns st f)"
    by (rule resolveQueue_fns [OF q dist])
  show ?thesis
  proof (cases "f \<in> set (entries (queues st q))")
    case True
    with alloc have "q < nextQueue st" by fastforce
    with True have qr: "q \<in> set (registered st f)" by (simp add: in_registered)
    have "length (pending st f)
            = Suc (length (filter (\<lambda>x. x \<noteq> q \<and> \<not> resolved (queues st x)) (registered st f)))"
      using length_filter_without [of "registered st f" q "\<lambda>x. \<not> resolved (queues st x)"]
        registered_distinct qr q by (simp add: pending_def)
    then have len: "length (pending st f) = Suc (length (pending ?st' f))"
      by (simp only: pend)
    then have "pending st f \<noteq> []" by auto
    with ok len have cnt: "queueCount (fns st f) = int (Suc (length (pending ?st' f)))"
      and calls: "calls (fns st f) = 0"
      by (simp_all add: continuationOk_def)
    from qr have "registered st f \<noteq> []" by auto
    with True cnt calls show ?thesis
      by (auto simp: continuationOk_def fn reg afterResolve_def)
  next
    case False
    then have "q \<notin> set (registered st f)" by (simp add: in_registered)
    then have "filter (\<lambda>x. x \<noteq> q \<and> \<not> resolved (queues st x)) (registered st f) = pending st f"
      unfolding pending_def by (rule filter_without_absent)
    then have "pending ?st' f = pending st f"
      by (simp only: pend)
    with False ok show ?thesis
      by (simp add: continuationOk_def fn reg)
  qed
qed

lemma wellFormed_resolveQueue:
  assumes "wellFormed st"
  shows "wellFormed (resolveQueue st qu)"
proof (cases qu)
  case None
  with assms show ?thesis by (simp add: resolveQueue_def)
next
  case (Some q)
  show ?thesis
  proof (cases "resolved (queues st q)")
    case True
    with Some assms show ?thesis by (simp add: resolveQueue_noop)
  next
    case False
    have "\<forall>f. f < nextFn (resolveQueue st (Some q)) \<longrightarrow> continuationOk (resolveQueue st (Some q)) f"
      using continuationOk_resolveQueue [OF assms _ False]
      by (simp add: resolveQueue_fields [OF False])
    moreover have "(\<forall>q'. nextQueue st \<le> q' \<longrightarrow> entries (queues st q') = []) \<and>
      (\<forall>q'. \<forall>f \<in> set (entries (queues st q')). f < nextFn st) \<and>
      (\<forall>q'. distinct (entries (queues st q'))) \<and>
      (\<forall>m q'. am_queue (amods st m) = Some q' \<longrightarrow> q' < nextQueue st) \<and>
      (\<forall>m. \<forall>q' \<in> set (am_depQueues (amods st m)). q' < nextQueue st) \<and>
      (\<forall>h. h < nextWrapped st \<longrightarrow> w_queue (wrappedDeps st h) < nextQueue st)"
      using assms unfolding wellFormed_def by blast
    ultimately show ?thesis
      unfolding Some wellFormed_def
      by (simp add: resolveQueue_fields [OF False])
  qed
qed

lemma extends_refl: "extends st st"
  by (simp add: extends_def)

lemma extends_trans: "extends a b \<Longrightarrow> extends b c \<Longrightarrow> extends a c"
  by (auto simp: extends_def)

lemma registered_eq:
  assumes "nextQueue st \<le> nextQueue st'"
    and "\<And>q. q < nextQueue st \<Longrightarrow>
           (f \<in> set (entries (queues st' q))) = (f \<in> set (entries (queues st q)))"
    and "\<And>q. nextQueue st \<le> q \<Longrightarrow> f \<notin> set (entries (queues st' q))"
  shows "registered st' f = registered st f"
proof -
  from assms(1) obtain k where k: "nextQueue st' = nextQueue st + k"
    using le_Suc_ex by blast
  have "filter (\<lambda>q. f \<in> set (entries (queues st' q))) [nextQueue st..<nextQueue st + k] = []"
    using assms(3) by (auto simp: filter_empty_conv)
  moreover have "filter (\<lambda>q. f \<in> set (entries (queues st' q))) [0..<nextQueue st]
               = filter (\<lambda>q. f \<in> set (entries (queues st q))) [0..<nextQueue st]"
    using assms(2) by (intro filter_cong) auto
  ultimately show ?thesis
    unfolding registered_def k upt_add_eq_append [OF le0] by simp
qed

lemma pending_eq:
  assumes "registered st' f = registered st f"
    and "\<And>q. q \<in> set (registered st f) \<Longrightarrow> resolved (queues st' q) = resolved (queues st q)"
  shows "pending st' f = pending st f"
  unfolding pending_def assms(1) using assms(2) by (intro filter_cong) auto

lemma continuationOk_eq:
  assumes "registered st' f = registered st f" "pending st' f = pending st f"
    "fns st' f = fns st f"
  shows "continuationOk st' f = continuationOk st f"
  by (simp add: continuationOk_def assms)

lemma registered_extends:
  assumes "wellFormed st" "extends st st'" "f < nextFn st"
  shows "registered st' f = registered st f"
proof (rule registered_eq)
  show "nextQueue st \<le> nextQueue st'" using assms(2) by (simp add: extends_def)
next
  fix q
  show "(f \<in> set (entries (queues st' q))) = (f \<in> set (entries (queues st q)))"
    using assms(2,3) by (simp add: extends_def)
next
  fix q assume "nextQueue st \<le> q"
  with assms(1) have "entries (queues st q) = []" by (simp add: wellFormed_def)
  moreover have "(f \<in> set (entries (queues st' q))) = (f \<in> set (entries (queues st q)))"
    using assms(2,3) by (simp add: extends_def)
  ultimately show "f \<notin> set (entries (queues st' q))" by simp
qed

lemma wellFormed_same:
  assumes "queues st' = queues st" "nextQueue st' = nextQueue st" "fns st' = fns st"
    "nextFn st' = nextFn st" "nextWrapped st' = nextWrapped st"
    "\<And>m. am_queue (amods st' m) = am_queue (amods st m)"
    "\<And>m. am_depQueues (amods st' m) = am_depQueues (amods st m)"
    "\<And>h. w_queue (wrappedDeps st' h) = w_queue (wrappedDeps st h)"
  shows "wellFormed st' = wellFormed st"
proof -
  have "\<And>f. registered st' f = registered st f"
    by (simp add: registered_def assms)
  then have "\<And>f. continuationOk st' f = continuationOk st f"
    by (simp add: continuationOk_def pending_def assms)
  then show ?thesis
    by (simp add: wellFormed_def assms)
qed

lemma extends_same:
  assumes "queues st' = queues st" "nextQueue st' = nextQueue st" "nextFn st' = nextFn st"
  shows "extends st st'" "quiet st' q = quiet st q"
  by (simp_all add: extends_def quiet_def assms)

lemma resolveQueue_extends: "extends st (resolveQueue st qu)"
proof (cases qu)
  case None
  then show ?thesis by (simp add: resolveQueue_def extends_refl)
next
  case (Some q)
  show ?thesis
  proof (cases "resolved (queues st q)")
    case True
    with Some show ?thesis by (simp add: resolveQueue_noop extends_refl)
  next
    case False
    show ?thesis
      unfolding Some extends_def by (simp add: resolveQueue_fields [OF False])
  qed
qed

lemma resolveQueue_quiet: "quiet st q \<Longrightarrow> quiet (resolveQueue st qu) q"
proof (cases qu)
  case None
  then show "quiet st q \<Longrightarrow> ?thesis" by (simp add: resolveQueue_def)
next
  case (Some q')
  assume a: "quiet st q"
  show ?thesis
  proof (cases "resolved (queues st q')")
    case True
    with Some a show ?thesis by (simp add: resolveQueue_noop)
  next
    case False
    with a show ?thesis
      unfolding Some quiet_def by (auto simp: resolveQueue_fields [OF False])
  qed
qed

lemma thenCallback_ok:
  assumes "wellFormed st"
  shows "wellFormed (thenCallback st h outcome)" "extends st (thenCallback st h outcome)"
    "quiet st q \<Longrightarrow> quiet (thenCallback st h outcome) q"
proof -
  let ?w = "case outcome of Fulfilled res \<Rightarrow> (wrappedDeps st h)\<lparr>w_exports := res\<rparr>
                          | Rejected err \<Rightarrow> (wrappedDeps st h)\<lparr>w_error := err\<rparr>"
  let ?st1 = "st\<lparr>wrappedDeps := (wrappedDeps st)(h := ?w)\<rparr>"
  have t: "thenCallback st h outcome = resolveQueue ?st1 (Some (w_queue (wrappedDeps st h)))"
    by (simp add: thenCallback_def Let_def)
  have "wellFormed ?st1 = wellFormed st"
    by (rule wellFormed_same) (auto split: settled.splits)
  with assms have wf1: "wellFormed ?st1" by simp
  have e1: "extends st ?st1" and q1: "quiet ?st1 q = quiet st q"
    by (rule extends_same; simp)+
  show "wellFormed (thenCallback st h outcome)"
    unfolding t by (rule wellFormed_resolveQueue [OF wf1])
  show "extends st (thenCallback st h outcome)"
    unfolding t by (rule extends_trans [OF e1 resolveQueue_extends])
  show "quiet st q \<Longrightarrow> quiet (thenCallback st h outcome) q"
    unfolding t using q1 by (simp add: resolveQueue_quiet)
qed

lemma asyncResult_ok:
  assumes "wellFormed st"
  shows "wellFormed (asyncResult st m err)" "extends st (asyncResult st m err)"
    "quiet st q \<Longrightarrow> quiet (asyncResult st m err) q"
proof -
  obtain st1 where t: "asyncResult st m err = resolveQueue st1 (am_queue (amods st m))"
    and same: "queues st1 = queues st" "nextQueue st1 = nextQueue st" "fns st1 = fns st"
      "nextFn st1 = nextFn st" "nextWrapped st1 = nextWrapped st"
      "\<And>m. am_queue (amods st1 m) = am_queue (amods st m)"
      "\<And>m. am_depQueues (amods st1 m) = am_depQueues (amods st m)"
      "\<And>h. w_queue (wrappedDeps st1 h) = w_queue (wrappedDeps st h)"
    by (cases "truthy err") (simp_all add: asyncResult_def Let_def)
  have "wellFormed st1 = wellFormed st"
    by (rule wellFormed_same) (simp_all add: same)
  with assms have wf1: "wellFormed st1" by simp
  have e1: "extends st st1" and q1: "quiet st1 q = quiet st q"
    by (rule extends_same; simp add: same)+
  show "wellFormed (asyncResult st m err)"
    unfolding t by (rule wellFormed_resolveQueue [OF wf1])
  show "extends st (asyncResult st m err)"
    unfolding t by (rule extends_trans [OF e1 resolveQueue_extends])
  show "quiet st q \<Longrightarrow> quiet (asyncResult st m err) q"
    unfolding t using q1 by (simp add: resolveQueue_quiet)
qed

lemma wellFormed_frame:
  assumes "wellFormed st"
    and "queues st' = queues st" "nextQueue st' = nextQueue st" "fns st' = fns st"
      "nextFn st' = nextFn st"
    and "\<And>m q. am_queue (amods st' m) = Some q \<Longrightarrow> q < nextQueue st"
    and "\<And>m q. q \<in> set (am_depQueues (amods st' m)) \<Longrightarrow> q < nextQueue st"
    and "\<And>h. h < nextWrapped st' \<Longrightarrow> w_queue (wrappedDeps st' h) < nextQueue st"
  shows "wellFormed st'"
proof -
  have "\<And>f. registered st' f = registered st f"
    by (simp add: registered_def assms)
  then have "\<And>f. continuationOk st' f = continuationOk st f"
    by (simp add: continuationOk_def pending_def assms)
  then have w7: "\<forall>g. g < nextFn st' \<longrightarrow> continuationOk st' g"
    using assms(1) by (simp add: wellFormed_def assms(5))
  have w1: "\<forall>x. nextQueue st' \<le> x \<longrightarrow> entries (queues st' x) = []"
    and w2: "\<forall>x. \<forall>g \<in> set (entries (queues st' x)). g < nextFn st'"
    and w3: "\<forall>x. distinct (entries (queues st' x))"
    using assms(1) by (simp_all add: wellFormed_def assms(2-5))
  have w4: "\<forall>m x. am_queue (amods st' m) = Some x \<longrightarrow> x < nextQueue st'"
    using assms(6) unfolding assms(3) by blast
  have w5: "\<forall>m. \<forall>x \<in> set (am_depQueues (amods st' m)). x < nextQueue st'"
    using assms(7) unfolding assms(3) by blast
  have w6: "\<forall>h. h < nextWrapped st' \<longrightarrow> w_queue (wrappedDeps st' h) < nextQueue st'"
    using assms(8) unfolding assms(3) by blast
  show ?thesis
    unfolding wellFormed_def using w1 w2 w3 w4 w5 w6 w7 by blast
qed

lemma wellFormed_allocQueue:
  assumes wf: "wellFormed st"
    and q: "queues st' = (queues st)(nextQueue st := \<lparr>resolved = b, entries = []\<rparr>)"
      "nextQueue st' = Suc (nextQueue st)"
    and f: "fns st' = fns st" "nextFn st' = nextFn st"
    and refs: "\<forall>m q. am_queue (amods st' m) = Some q \<longrightarrow> q \<le> nextQueue st"
      "\<forall>m. \<forall>q \<in> set (am_depQueues (amods st' m)). q \<le> nextQueue st"
      "\<forall>h. h < nextWrapped st' \<longrightarrow> w_queue (wrappedDeps st' h) \<le> nextQueue st"
  shows "wellFormed st'" "extends st st'" "quiet st x \<Longrightarrow> quiet st' x"
proof -
  from wf have empty: "\<And>q. nextQueue st \<le> q \<Longrightarrow> entries (queues st q) = []"
    by (simp add: wellFormed_def)
  have ent: "\<And>x. entries (queues st' x) = entries (queues st x)"
    using empty by (simp add: q)
  have reg: "\<And>g. registered st' g = registered st g"
    by (rule registered_eq) (simp_all add: q(2) ent empty)
  have pend: "\<And>g. pending st' g = pending st g"
  proof (rule pending_eq [OF reg])
    fix g x assume "x \<in> set (registered st g)"
    then have "x \<noteq> nextQueue st" by (simp add: in_registered)
    then show "resolved (queues st' x) = resolved (queues st x)" by (simp add: q)
  qed
  have ok: "\<And>g. continuationOk st' g = continuationOk st g"
    by (rule continuationOk_eq) (simp_all add: reg pend f)
  have w1: "\<forall>x. nextQueue st' \<le> x \<longrightarrow> entries (queues st' x) = []"
    using empty by (simp add: ent q(2))
  have w2: "\<forall>x. \<forall>g \<in> set (entries (queues st' x)). g < nextFn st'"
    using wf by (simp add: wellFormed_def ent f)
  have w3: "\<forall>x. distinct (entries (queues st' x))"
    using wf by (simp add: wellFormed_def ent)
  have w4: "\<forall>m x. am_queue (amods st' m) = Some x \<longrightarrow> x < nextQueue st'"
    using refs(1) by (auto simp: q(2) less_Suc_eq_le)
  have w5: "\<forall>m. \<forall>x \<in> set (am_depQueues (amods st' m)). x < nextQueue st'"
    using refs(2) by (auto simp: q(2) less_Suc_eq_le)
  have w6: "\<forall>h. h < nextWrapped st' \<longrightarrow> w_queue (wrappedDeps st' h) < nextQueue st'"
    using refs(3) by (auto simp: q(2) less_Suc_eq_le)
  have w7: "\<forall>g. g < nextFn st' \<longrightarrow> continuationOk st' g"
    using wf by (simp add: wellFormed_def ok f)
  show "wellFormed st'"
    unfolding wellFormed_def using w1 w2 w3 w4 w5 w6 w7 by blast
  show "extends st st'"
    by (simp add: extends_def f q(2) ent)
  show "quiet st x \<Longrightarrow> quiet st' x"
    by (auto simp: quiet_def q)
qed

lemma wellFormed_allocFn:
  assumes wf: "wellFormed st"
    and same: "queues st' = queues st" "nextQueue st' = nextQueue st" "amods st' = amods st"
      "wrappedDeps st' = wrappedDeps st" "nextWrapped st' = nextWrapped st"
    and f: "fns st' = (fns st)(nextFn st := fn)" "nextFn st' = Suc (nextFn st)"
      "queueCount fn = 0" "calls fn = 0"
  shows "wellFormed st'" "extends st st'" "quiet st' x = quiet st x"
    "registered st' (nextFn st) = []"
proof -
  have reg: "\<And>g. registered st' g = registered st g"
    by (simp add: registered_def same)
  have pend: "\<And>g. pending st' g = pending st g"
    by (simp add: pending_def reg same)
  from wf have "\<And>q. nextFn st \<notin> set (entries (queues st q))"
    by (fastforce simp: wellFormed_def)
  then have "registered st (nextFn st) = []"
    by (simp add: registered_def)
  then show new: "registered st' (nextFn st) = []"
    by (simp only: reg)
  have "continuationOk st' g" if "g < Suc (nextFn st)" for g
  proof (cases "g = nextFn st")
    case True
    with new show ?thesis by (simp add: continuationOk_def pending_def f)
  next
    case False
    with that wf have "continuationOk st g" by (simp add: wellFormed_def)
    with False show ?thesis by (simp add: continuationOk_def reg pend f)
  qed
  with wf show "wellFormed st'"
    unfolding wellFormed_def by (auto simp: same f less_Suc_eq)
  show "extends st st'"
    by (simp add: extends_def f same)
  show "quiet st' x = quiet st x"
    by (simp add: quiet_def same)
qed

lemma wrapDep_ok:
  assumes wf: "wellFormed st" and w: "wrapDep st dep = (h, st')"
  shows "wellFormed st'" "extends st st'" "quiet st x \<Longrightarrow> quiet st' x"
    "validHandle st' h" "nextWrapped st \<le> nextWrapped st'"
    "fns st' = fns st" "nextFn st' = nextFn st" "amods st' = amods st" "ext st' = ext st"
    "nextPromise st' = nextPromise st"
proof -
  let ?new = "st\<lparr>queues := (queues st)(nextQueue st := \<lparr>resolved = False, entries = []\<rparr>),
                  nextQueue := Suc (nextQueue st),
                  wrappedDeps := (wrappedDeps st)(nextWrapped st :=
                    \<lparr>w_exports = VObj (fst (alloc (base st) False (Some objectPrototype) [])),
                     w_error = VUndefined, w_queue = nextQueue st\<rparr>),
                  nextWrapped := Suc (nextWrapped st),
                  base := snd (alloc (base st) False (Some objectPrototype) [])\<rparr>"
  have "wrapDep st dep = (HWrapped (nextWrapped st), ?new) \<or>
        wrapDep st dep = (HPlain dep, st) \<or>
        wrapDep st dep = (HModule (case dep of VObj r \<Rightarrow> ident r | _ \<Rightarrow> 0), st)"
    by (simp add: wrapDep_def Let_def split_def)
  with w consider (same) "st' = st" "\<forall>k. h \<noteq> HWrapped k"
    | (new) "h = HWrapped (nextWrapped st)" "st' = ?new"
    by auto
  then have "wellFormed st' \<and> extends st st' \<and> (quiet st x \<longrightarrow> quiet st' x) \<and>
    validHandle st' h \<and> nextWrapped st \<le> nextWrapped st' \<and>
    fns st' = fns st \<and> nextFn st' = nextFn st \<and> amods st' = amods st \<and> ext st' = ext st \<and>
    nextPromise st' = nextPromise st"
  proof cases
    case same
    with wf show ?thesis by (cases h) (simp_all add: extends_refl)
  next
    case new
    from wf have refs: "\<And>m q. am_queue (amods st m) = Some q \<Longrightarrow> q < nextQueue st"
      "\<And>m q. q \<in> set (am_depQueues (amods st m)) \<Longrightarrow> q < nextQueue st"
      "\<And>k. k < nextWrapped st \<Longrightarrow> w_queue (wrappedDeps st k) < nextQueue st"
      by (auto simp: wellFormed_def)
    have a: "queues st' = (queues st)(nextQueue st := \<lparr>resolved = False, entries = []\<rparr>)"
      "nextQueue st' = Suc (nextQueue st)" "fns st' = fns st" "nextFn st' = nextFn st"
      by (simp_all add: new)
    have b: "\<forall>m q. am_queue (amods st' m) = Some q \<longrightarrow> q \<le> nextQueue st"
      "\<forall>m. \<forall>q \<in> set (am_depQueues (amods st' m)). q \<le> nextQueue st"
      using refs(1,2) by (auto simp: new intro: less_imp_le)
    have c: "\<forall>k. k < nextWrapped st' \<longrightarrow> w_queue (wrappedDeps st' k) \<le> nextQueue st"
      using refs(3) by (auto simp: new less_Suc_eq intro: less_imp_le)
    note r = wellFormed_allocQueue [of st st' False, OF wf a b c]
    from r show ?thesis by (simp add: new)
  qed
  then show "wellFormed st'" "extends st st'" "quiet st x \<Longrightarrow> quiet st' x"
    "validHandle st' h" "nextWrapped st \<le> nextWrapped st'"
    "fns st' = fns st" "nextFn st' = nextFn st" "amods st' = amods st" "ext st' = ext st"
    "nextPromise st' = nextPromise st"
    by simp_all
qed

lemma validHandle_mono: "validHandle st h \<Longrightarrow> nextWrapped st \<le> nextWrapped st' \<Longrightarrow> validHandle st' h"
  by (cases h) simp_all

lemma wrapDeps_ok:
  assumes "wellFormed st" "wrapDeps st deps = (hs, st')"
  shows "wellFormed st' \<and> extends st st' \<and> (quiet st x \<longrightarrow> quiet st' x) \<and>
         (\<forall>h \<in> set hs. validHandle st' h) \<and> nextWrapped st \<le> nextWrapped st' \<and>
         fns st' = fns st \<and> nextFn st' = nextFn st \<and> amods st' = amods st \<and> ext st' = ext st \<and>
         nextPromise st' = nextPromise st"
  using assms
proof (induction deps arbitrary: st hs st')
  case Nil
  then show ?case by (simp add: extends_refl)
next
  case (Cons dep deps)
  obtain h st1 where h: "wrapDep st dep = (h, st1)" by (cases "wrapDep st dep")
  obtain hs' st2 where hs': "wrapDeps st1 deps = (hs', st2)" by (cases "wrapDeps st1 deps")
  from Cons.prems(2) h hs' have eq: "hs = h # hs'" "st' = st2" by simp_all
  note one = wrapDep_ok [OF Cons.prems(1) h]
  note more = Cons.IH [OF one(1) hs']
  have "extends st st2" using one(2) more by (blast intro: extends_trans)
  moreover have "\<forall>h \<in> set (h # hs'). validHandle st2 h"
    using one(4) more by (auto intro: validHandle_mono)
  moreover have "quiet st x \<longrightarrow> quiet st2 x" using one(3) more by blast
  moreover have "nextWrapped st \<le> nextWrapped st2" using one(5) more by simp
  ultimately show ?case
    unfolding eq using one(6-10) more by simp
qed

lemma registering_count:
  assumes "wellFormed s" "registering m f s"
  shows "queueCount (fns s f) = int (length (registered s f))" "pending s f = registered s f"
proof -
  from assms(2) have unres: "\<And>q. q \<in> set (registered s f) \<Longrightarrow> \<not> resolved (queues s q)"
    by (simp add: registering_def in_registered)
  then show p: "pending s f = registered s f"
    by (simp add: pending_def)
  from assms have "continuationOk s f"
    by (simp add: wellFormed_def registering_def)
  then show "queueCount (fns s f) = int (length (registered s f))"
    unfolding continuationOk_def p by (cases "registered s f = []") simp_all
qed

lemma length_filter_with:
  assumes "distinct xs" "q \<in> set xs" "\<not> P q"
  shows "length (filter (\<lambda>x. x = q \<or> P x) xs) = Suc (length (filter P xs))"
proof -
  have "filter (\<lambda>x. x \<noteq> q \<and> (x = q \<or> P x)) xs = filter P xs"
    using assms(3) by (intro filter_cong) auto
  with length_filter_without [of xs q "\<lambda>x. x = q \<or> P x"] assms(1,2)
  show ?thesis by simp
qed

lemma fnQueue_push:
  assumes wf: "wellFormed s" and reg: "registering m f s" and q: "q < nextQueue s"
    and unres: "\<not> resolved (queues s q)" and new: "q \<notin> set (am_depQueues (amods s m))"
    and s': "queues s' = (queues s)(q := (queues s q)\<lparr>entries := entries (queues s q) @ [f]\<rparr>)"
      "fns s' = (fns s)(f := (fns s f)\<lparr>queueCount := queueCount (fns s f) + 1\<rparr>)"
      "amods s' = (amods s)(m := (amods s m)\<lparr>am_depQueues := am_depQueues (amods s m) @ [q]\<rparr>)"
      "nextQueue s' = nextQueue s" "nextFn s' = nextFn s" "wrappedDeps s' = wrappedDeps s"
      "nextWrapped s' = nextWrapped s"
  shows "wellFormed s'" "registering m f s'"
proof -
  from reg new have fresh: "f \<notin> set (entries (queues s q))" and f: "f < nextFn s"
    and calls: "calls (fns s f) = 0"
    by (auto simp: registering_def)
  have mem: "\<And>g x. (g \<in> set (entries (queues s' x))) = (g = f \<and> x = q \<or> g \<in> set (entries (queues s x)))"
    by (auto simp: s'(1))
  have res: "\<And>x. resolved (queues s' x) = resolved (queues s x)"
    by (simp add: s'(1))
  show r': "registering m f s'"
    using reg unres by (auto simp: registering_def mem res s'(2,3,5))
  have other: "continuationOk s' g" if "g < nextFn s" "g \<noteq> f" for g
  proof -
    have r: "registered s' g = registered s g"
      using that(2) by (simp add: registered_def mem s'(4))
    have p: "pending s' g = pending s g"
      by (simp add: pending_def r res)
    from wf that(1) have "continuationOk s g" by (simp add: wellFormed_def)
    then show ?thesis
      using that(2) by (simp add: continuationOk_def r p s'(2))
  qed
  have self: "continuationOk s' f"
  proof -
    have "registered s' f = filter (\<lambda>x. x = q \<or> f \<in> set (entries (queues s x))) [0..<nextQueue s]"
      by (simp add: registered_def mem s'(4))
    then have len: "length (registered s' f) = Suc (length (registered s f))"
      using length_filter_with [of "[0..<nextQueue s]" q "\<lambda>x. f \<in> set (entries (queues s x))"]
        q fresh by (simp add: registered_def)
    have p: "pending s' f = registered s' f"
      using r' by (simp add: pending_def registering_def in_registered)
    from len have ne: "registered s' f \<noteq> []" by auto
    from registering_count(1) [OF wf reg] len
    have "queueCount (fns s' f) = int (length (registered s' f))"
      by (simp add: s'(2))
    with ne calls show ?thesis
      by (simp add: continuationOk_def p s'(2))
  qed
  have w7: "\<forall>g. g < nextFn s' \<longrightarrow> continuationOk s' g"
    using other self by (auto simp: s'(5))
  have w1: "\<forall>x. nextQueue s' \<le> x \<longrightarrow> entries (queues s' x) = []"
    using wf q by (auto simp: wellFormed_def s'(1,4))
  have w2: "\<forall>x. \<forall>g \<in> set (entries (queues s' x)). g < nextFn s'"
    using wf f by (auto simp: wellFormed_def mem s'(5))
  have w3: "\<forall>x. distinct (entries (queues s' x))"
    using wf fresh by (auto simp: wellFormed_def s'(1))
  have w4: "\<forall>k x. am_queue (amods s' k) = Some x \<longrightarrow> x < nextQueue s'"
    using wf by (auto simp: wellFormed_def s'(3,4))
  have w5: "\<forall>k. \<forall>x \<in> set (am_depQueues (amods s' k)). x < nextQueue s'"
    using wf q by (auto simp: wellFormed_def s'(3,4))
  have w6: "\<forall>h. h < nextWrapped s' \<longrightarrow> w_queue (wrappedDeps s' h) < nextQueue s'"
    using wf by (auto simp: wellFormed_def s'(4,6,7))
  show "wellFormed s'"
    unfolding wellFormed_def using w1 w2 w3 w4 w5 w6 w7 by blast
qed

lemma fnQueue_cases:
  "fnQueue m f s q =
     (if am_queue (amods s m) = Some q \<or> q \<in> set (am_depQueues (amods s m)) then s
      else if resolved (queues s q)
      then s\<lparr>amods := (amods s)(m := (amods s m)\<lparr>am_depQueues := am_depQueues (amods s m) @ [q]\<rparr>)\<rparr>
      else s\<lparr>amods := (amods s)(m := (amods s m)\<lparr>am_depQueues := am_depQueues (amods s m) @ [q]\<rparr>),
             fns := (fns s)(f := (fns s f)\<lparr>queueCount := queueCount (fns s f) + 1\<rparr>),
             queues := (queues s)(q := (queues s q)\<lparr>entries := entries (queues s q) @ [f]\<rparr>)\<rparr>)"
  by (simp add: fnQueue_def Let_def increment_def)

lemma fnQueue_loopInv:
  assumes inv: "loopInv m f s0 s" and q: "q < nextQueue s"
  shows "loopInv m f s0 (fnQueue m f s q)"
proof -
  from inv have wf: "wellFormed s" and reg: "registering m f s"
    by (simp_all add: loopInv_def)
  consider (skip) "am_queue (amods s m) = Some q \<or> q \<in> set (am_depQueues (amods s m))"
    | (mark) "\<not> (am_queue (amods s m) = Some q \<or> q \<in> set (am_depQueues (amods s m)))"
        "resolved (queues s q)"
    | (push) "\<not> (am_queue (amods s m) = Some q \<or> q \<in> set (am_depQueues (amods s m)))"
        "\<not> resolved (queues s q)"
    by blast
  then show ?thesis
  proof cases
    case skip
    then have "fnQueue m f s q = s" by (simp add: fnQueue_cases)
    with inv show ?thesis by simp
  next
    case mark
    let ?s' = "s\<lparr>amods := (amods s)(m := (amods s m)\<lparr>am_depQueues := am_depQueues (amods s m) @ [q]\<rparr>)\<rparr>"
    from mark have eq: "fnQueue m f s q = ?s'" by (simp add: fnQueue_cases)
    have "wellFormed ?s'"
    proof (rule wellFormed_frame [OF wf])
      fix k x assume "am_queue (amods ?s' k) = Some x"
      then show "x < nextQueue s" using wf by (auto simp: wellFormed_def split: if_splits)
    next
      fix k x assume "x \<in> set (am_depQueues (amods ?s' k))"
      then show "x < nextQueue s" using wf q by (auto simp: wellFormed_def split: if_splits)
    next
      fix h assume "h < nextWrapped ?s'"
      then show "w_queue (wrappedDeps ?s' h) < nextQueue s" using wf by (simp add: wellFormed_def)
    qed simp_all
    moreover have "registering m f ?s'"
      using reg by (auto simp: registering_def)
    ultimately show ?thesis
      unfolding eq using inv by (simp add: loopInv_def)
  next
    case push
    let ?s' = "s\<lparr>amods := (amods s)(m := (amods s m)\<lparr>am_depQueues := am_depQueues (amods s m) @ [q]\<rparr>),
             fns := (fns s)(f := (fns s f)\<lparr>queueCount := queueCount (fns s f) + 1\<rparr>),
             queues := (queues s)(q := (queues s q)\<lparr>entries := entries (queues s q) @ [f]\<rparr>)\<rparr>"
    from push have eq: "fnQueue m f s q = ?s'" by (simp add: fnQueue_cases)
    from push have new: "q \<notin> set (am_depQueues (amods s m))" by simp
    have "wellFormed ?s'" "registering m f ?s'"
      by (rule fnQueue_push [OF wf reg q push(2) new]; simp)+
    moreover from inv push(2) have
      "\<forall>x. entries (queues s0 x) = [] \<and> resolved (queues s0 x) \<longrightarrow> entries (queues ?s' x) = []"
      by (auto simp: loopInv_def)
    ultimately show ?thesis
      unfolding eq using inv by (simp add: loopInv_def)
  qed
qed

lemma fnQueues_loopInv:
  assumes "loopInv m f s0 s" "\<forall>q \<in> set qs. q < nextQueue s0"
  shows "loopInv m f s0 (foldl (fnQueue m f) s qs)"
  using assms
proof (induction qs arbitrary: s)
  case Nil
  then show ?case by simp
next
  case (Cons q qs)
  from Cons.prems have "q < nextQueue s" by (simp add: loopInv_def)
  from fnQueue_loopInv [OF Cons.prems(1) this] Cons.IH Cons.prems(2)
  show ?case by simp
qed

lemma queuesOf_allocated:
  assumes "wellFormed s" "validHandle s h"
  shows "\<forall>q \<in> set (queuesOf s h). q < nextQueue s"
proof (cases h)
  case (HModule a)
  with assms(1) show ?thesis
    by (auto simp: wellFormed_def split: option.splits)
next
  case (HWrapped k)
  with assms show ?thesis by (simp add: wellFormed_def)
next
  case (HPlain v)
  then show ?thesis by simp
qed

lemma registerDep_loopInv:
  assumes "loopInv m f s0 s" "validHandle s0 h"
  shows "loopInv m f s0 (registerDep m f s h)"
proof -
  from assms have "validHandle s h"
    by (cases h) (simp_all add: loopInv_def)
  with assms(1) have "\<forall>q \<in> set (queuesOf s h). q < nextQueue s0"
    using queuesOf_allocated [of s h] by (simp add: loopInv_def)
  with assms(1) show ?thesis
    unfolding registerDep_def by (rule fnQueues_loopInv)
qed

lemma registerDeps_loopInv:
  assumes "loopInv m f s0 s" "\<forall>h \<in> set hs. validHandle s0 h"
  shows "loopInv m f s0 (foldl (registerDep m f) s hs)"
  using assms
proof (induction hs arbitrary: s)
  case Nil
  then show ?case by simp
next
  case (Cons h hs)
  from registerDep_loopInv [OF Cons.prems(1), of h] Cons.prems(2) Cons.IH
  show ?case by simp
qed

lemma keeps_trans: "keeps a b \<Longrightarrow> keeps b c \<Longrightarrow> keeps a c"
  unfolding keeps_def using extends_trans by blast

lemma handleAsyncDependencies_unfold:
  assumes "wrapDeps st deps = (hs, st1)"
  shows "handleAsyncDependencies st m deps =
    (let st3 = st1\<lparr>promises := (promises st1)(nextPromise st1 := Pending),
                   nextPromise := Suc (nextPromise st1),
                   fns := (fns st1)(nextFn st1 :=
                     \<lparr>queueCount = 0, calls = 0, resolves = nextPromise st1, yields = hs\<rparr>),
                   nextFn := Suc (nextFn st1)\<rparr>;
         st4 = foldl (registerDep m (nextFn st1)) st3 hs
     in if queueCount (fns st4 (nextFn st1)) \<noteq> 0 then (Normal (HPromise (nextPromise st1)), st4)
        else (case getResult st4 hs of
                Normal vs \<Rightarrow> (Normal (HArray vs), st4)
              | Throw e \<Rightarrow> (Throw e, st4)))"
  using assms by (simp add: handleAsyncDependencies_def Let_def split: completion.splits)

lemma handleAsyncDependencies_loop:
  assumes wf: "wellFormed st" and w: "wrapDeps st deps = (hs, st1)"
    and st3: "st3 = st1\<lparr>promises := (promises st1)(nextPromise st1 := Pending),
                   nextPromise := Suc (nextPromise st1),
                   fns := (fns st1)(nextFn st1 :=
                     \<lparr>queueCount = 0, calls = 0, resolves = nextPromise st1, yields = hs\<rparr>),
                   nextFn := Suc (nextFn st1)\<rparr>"
    and st4: "st4 = foldl (registerDep m (nextFn st1)) st3 hs"
  shows "loopInv m (nextFn st) st3 st4" "keeps st st3" "nextFn st1 = nextFn st"
    "snd (handleAsyncDependencies st m deps) = st4"
proof -
  note w1 = wrapDeps_ok [OF wf w]
  from w1 have wf1: "wellFormed st1" and f: "nextFn st1 = nextFn st" by simp_all
  show "nextFn st1 = nextFn st" by (rule f)
  have a: "wellFormed st3" "extends st1 st3" "\<And>x. quiet st3 x = quiet st1 x"
    by (rule wellFormed_allocFn [OF wf1, where fn = "\<lparr>queueCount = 0, calls = 0,
          resolves = nextPromise st1, yields = hs\<rparr>"]; simp add: st3)+
  show k3: "keeps st st3"
    unfolding keeps_def using a w1 extends_trans by blast
  from wf1 have "\<And>q. nextFn st1 \<notin> set (entries (queues st1 q))"
    by (fastforce simp: wellFormed_def)
  then have "registering m (nextFn st1) st3"
    by (simp add: registering_def st3)
  with a(1) have "loopInv m (nextFn st1) st3 st3"
    by (simp add: loopInv_def)
  moreover have "\<forall>h \<in> set hs. validHandle st3 h"
  proof
    fix h assume "h \<in> set hs"
    with w1 have "validHandle st1 h" by blast
    then show "validHandle st3 h"
      by (rule validHandle_mono) (simp add: st3)
  qed
  ultimately show "loopInv m (nextFn st) st3 st4"
    unfolding st4 f [symmetric] by (rule registerDeps_loopInv)
  show "snd (handleAsyncDependencies st m deps) = st4"
    unfolding handleAsyncDependencies_unfold [OF w] st4 st3
    by (simp add: Let_def split: completion.splits)
qed

lemma loopInv_keeps:
  assumes "loopInv m f s0 s" "nextFn s0 = Suc f"
  shows "\<forall>x. quiet s0 x \<longrightarrow> quiet s x"
    and "\<forall>g q. g < f \<longrightarrow> (g \<in> set (entries (queues s q))) = (g \<in> set (entries (queues s0 q)))"
  using assms by (auto simp: loopInv_def quiet_def)

lemma handleAsyncDependencies_keeps:
  assumes wf: "wellFormed st"
  shows "keeps st (snd (handleAsyncDependencies st m deps))"
proof -
  obtain hs st1 where w: "wrapDeps st deps = (hs, st1)" by (cases "wrapDeps st deps")
  define st3 where "st3 = st1\<lparr>promises := (promises st1)(nextPromise st1 := Pending),
                   nextPromise := Suc (nextPromise st1),
                   fns := (fns st1)(nextFn st1 :=
                     \<lparr>queueCount = 0, calls = 0, resolves = nextPromise st1, yields = hs\<rparr>),
                   nextFn := Suc (nextFn st1)\<rparr>"
  define st4 where "st4 = foldl (registerDep m (nextFn st1)) st3 hs"
  note l = handleAsyncDependencies_loop [OF wf w st3_def st4_def]
  have n3: "nextFn st3 = Suc (nextFn st)" by (simp add: st3_def l(3))
  note k = loopInv_keeps [OF l(1) n3]
  from l(1) have wf4: "wellFormed st4" and n: "nextFn st4 = nextFn st3" "nextQueue st4 = nextQueue st3"
    by (simp_all add: loopInv_def)
  have e: "extends st st4"
  proof -
    from l(2) have e3: "extends st st3" by (simp add: keeps_def)
    show ?thesis
      unfolding extends_def
    proof (intro conjI allI impI)
      show "nextFn st \<le> nextFn st4" by (simp add: n n3)
      show "nextQueue st \<le> nextQueue st4" using e3 by (simp add: n extends_def)
      fix g q assume "g < nextFn st"
      then show "(g \<in> set (entries (queues st4 q))) = (g \<in> set (entries (queues st q)))"
        using k(2) e3 n3 by (simp add: extends_def)
    qed
  qed
  have "\<forall>x. quiet st x \<longrightarrow> quiet st4 x"
    using l(2) k(1) by (simp add: keeps_def)
  with wf4 e show ?thesis
    unfolding l(4) keeps_def by simp
qed

lemma asyncModule_keeps:
  assumes wf: "wellFormed st"
    and body: "\<And>s. wellFormed s \<Longrightarrow> keeps s (body s)"
  shows "keeps st (asyncModule st mo body hasAwait)"
proof -
  define st1 where "st1 = (if hasAwait
                 then st\<lparr>queues := (queues st)(nextQueue st := \<lparr>resolved = True, entries = []\<rparr>),
                         nextQueue := Suc (nextQueue st)\<rparr>
                 else st)"
  define qu where "qu = (if hasAwait then Some (nextQueue st) else None)"
  define b1 where "b1 = (case exports (modules (base st1) mo) of
                  VObj r \<Rightarrow> ensureDynamicExports (base st1) mo r
                | _ \<Rightarrow> base st1)"
  define exps where "exps = exports (modules b1 mo)"
  define promise where "promise = fst (alloc b1 False (Some promisePrototype) [])"
  define b2 where "b2 = snd (alloc b1 False (Some promisePrototype) [])"
  define b3 where "b3 = setModule b2 mo
      ((modules b2 mo)\<lparr>exports := VObj promise, namespaceObject := VObj promise\<rparr>)"
  define st2 where "st2 = st1\<lparr>amods := (amods st1)(nextMod st1 :=
                       \<lparr>am_queue = qu, am_depQueues = [], am_exports = exps,
                        am_promise = ident promise, am_settled = None\<rparr>),
                    ext := (ext st1)(ident promise \<mapsto>
                       \<lparr>x_exports = exps, x_error = VUndefined, x_owner = nextMod st1\<rparr>),
                    thenable := (thenable st1)(ident promise := True),
                    base := b3,
                    nextMod := Suc (nextMod st1)\<rparr>"
  define st3 where "st3 = body st2"
  have am: "asyncModule st mo body hasAwait =
      (case qu of None \<Rightarrow> st3
       | Some q \<Rightarrow> st3\<lparr>queues := (queues st3)(q := (queues st3 q)\<lparr>resolved := False\<rparr>)\<rparr>)"
    unfolding asyncModule_def Let_def split_def st3_def st2_def b3_def b2_def promise_def
      exps_def b1_def qu_def st1_def by (rule refl)
  from wf have refs: "\<And>m q. am_queue (amods st m) = Some q \<Longrightarrow> q < nextQueue st"
    "\<And>m q. q \<in> set (am_depQueues (amods st m)) \<Longrightarrow> q < nextQueue st"
    "\<And>k. k < nextWrapped st \<Longrightarrow> w_queue (wrappedDeps st k) < nextQueue st"
    by (auto simp: wellFormed_def)
  have k1: "keeps st st1" and q1: "hasAwait \<Longrightarrow> quiet st1 (nextQueue st)"
    and nq1: "nextQueue st \<le> nextQueue st1"
  proof -
    show "keeps st st1"
    proof (cases hasAwait)
      case True
      then have s: "st1 = st\<lparr>queues := (queues st)(nextQueue st := \<lparr>resolved = True, entries = []\<rparr>),
                         nextQueue := Suc (nextQueue st)\<rparr>" by (simp add: st1_def)
      have a: "queues st1 = (queues st)(nextQueue st := \<lparr>resolved = True, entries = []\<rparr>)"
        "nextQueue st1 = Suc (nextQueue st)" "fns st1 = fns st" "nextFn st1 = nextFn st"
        by (simp_all add: s)
      have b: "\<forall>m q. am_queue (amods st1 m) = Some q \<longrightarrow> q \<le> nextQueue st"
        "\<forall>m. \<forall>q \<in> set (am_depQueues (amods st1 m)). q \<le> nextQueue st"
        "\<forall>k. k < nextWrapped st1 \<longrightarrow> w_queue (wrappedDeps st1 k) \<le> nextQueue st"
        using refs by (auto simp: s intro: less_imp_le)
      note r = wellFormed_allocQueue [of st st1 True, OF wf a b]
      from r show ?thesis unfolding keeps_def by blast
    next
      case False
      then have "st1 = st" by (simp add: st1_def)
      with wf show ?thesis by (simp add: keeps_def extends_refl)
    qed
    show "hasAwait \<Longrightarrow> quiet st1 (nextQueue st)"
      by (simp add: st1_def quiet_def)
    show "nextQueue st \<le> nextQueue st1"
      by (simp add: st1_def)
  qed
  from k1 have wf1: "wellFormed st1" by (simp add: keeps_def)
  have qu: "\<And>q. qu = Some q \<Longrightarrow> q < nextQueue st1 \<and> q = nextQueue st \<and> hasAwait"
    by (auto simp: qu_def st1_def split: if_splits)
  have wf2: "wellFormed st2"
  proof (rule wellFormed_frame [OF wf1])
    fix k x assume "am_queue (amods st2 k) = Some x"
    then show "x < nextQueue st1"
      using wf1 qu by (auto simp: st2_def wellFormed_def split: if_splits)
  next
    fix k x assume "x \<in> set (am_depQueues (amods st2 k))"
    then show "x < nextQueue st1"
      using wf1 by (auto simp: st2_def wellFormed_def split: if_splits)
  next
    fix h assume "h < nextWrapped st2"
    then show "w_queue (wrappedDeps st2 h) < nextQueue st1"
      using wf1 by (simp add: st2_def wellFormed_def)
  qed (simp_all add: st2_def)
  have k2: "keeps st1 st2"
    unfolding keeps_def using wf2 by (simp add: extends_def quiet_def st2_def)
  have k3: "keeps st2 st3"
    unfolding st3_def by (rule body [OF wf2])
  have k13: "keeps st st3"
    by (rule keeps_trans [OF k1 keeps_trans [OF k2 k3]])
  show ?thesis
  proof (cases qu)
    case None
    with k13 show ?thesis by (simp add: am)
  next
    case (Some q)
    let ?st4 = "st3\<lparr>queues := (queues st3)(q := (queues st3 q)\<lparr>resolved := False\<rparr>)\<rparr>"
    from qu [OF Some] have q: "q = nextQueue st" "hasAwait" by simp_all
    from q1 q k2 k3 have quiet3: "quiet st3 q" by (simp add: keeps_def)
    from k3 have wf3: "wellFormed st3" by (simp add: keeps_def)
    have ent: "\<And>x. entries (queues ?st4 x) = entries (queues st3 x)" by simp
    have reg: "\<And>g. registered ?st4 g = registered st3 g"
      unfolding registered_def by (intro filter_cong) auto
    have pend: "\<And>g. pending ?st4 g = pending st3 g"
    proof (rule pending_eq [OF reg])
      fix g x assume "x \<in> set (registered st3 g)"
      with quiet3 have "x \<noteq> q" by (auto simp: in_registered quiet_def)
      then show "resolved (queues ?st4 x) = resolved (queues st3 x)" by simp
    qed
    have ok: "\<And>g. continuationOk ?st4 g = continuationOk st3 g"
      by (rule continuationOk_eq) (simp_all add: reg pend)
    have "wellFormed ?st4"
      using wf3 unfolding wellFormed_def ok ent by simp
    moreover have "extends st3 ?st4"
      by (simp add: extends_def)
    moreover have "\<forall>x. quiet st x \<longrightarrow> quiet ?st4 x"
    proof (intro allI impI)
      fix x assume a: "quiet st x"
      then have "x \<noteq> q" by (simp add: quiet_def q)
      moreover from a k13 have "quiet st3 x" by (simp add: keeps_def)
      ultimately show "quiet ?st4 x" by (simp add: quiet_def)
    qed
    ultimately show ?thesis
      unfolding am Some keeps_def using k13 extends_trans
      by (auto simp: keeps_def)
  qed
qed

lemma foldl_keeps:
  assumes "\<And>ev s. ev \<in> set evs \<Longrightarrow> wellFormed s \<Longrightarrow> keeps s (f s ev)" "wellFormed st"
  shows "keeps st (foldl f st evs)"
  using assms
proof (induction evs arbitrary: st)
  case Nil
  then show ?case by (simp add: keeps_def extends_refl)
next
  case (Cons ev evs)
  have one: "keeps st (f st ev)" by (rule Cons.prems(1)) (simp_all add: Cons.prems(2))
  then have "wellFormed (f st ev)" by (simp add: keeps_def)
  then have "keeps (f st ev) (foldl f (f st ev) evs)"
    by (intro Cons.IH Cons.prems(1)) simp_all
  with one show ?case by (simp add: keeps_trans)
qed

lemma step_keeps: "wellFormed st \<Longrightarrow> keeps st (step st ev)"
proof (induction ev arbitrary: st)
  case (Resolve q)
  then show ?case
    by (simp add: keeps_def wellFormed_resolveQueue resolveQueue_extends resolveQueue_quiet)
next
  case (Register m deps)
  then show ?case by (simp add: handleAsyncDependencies_keeps)
next
  case (Settle h outcome)
  then show ?case by (simp add: keeps_def thenCallback_ok)
next
  case (Result m err)
  then show ?case by (simp add: keeps_def asyncResult_ok)
next
  case (AsyncModule mo hasAwait body)
  have "keeps st (asyncModule st mo (\<lambda>s. foldl step s body) hasAwait)"
  proof (rule asyncModule_keeps [OF AsyncModule.prems])
    fix s assume "wellFormed s"
    then show "keeps s (foldl step s body)"
      by (intro foldl_keeps AsyncModule.IH) simp_all
  qed
  then show ?case by simp
qed

lemma run_keeps: "wellFormed st \<Longrightarrow> keeps st (run st evs)"
  unfolding run_def by (rule foldl_keeps) (simp_all add: step_keeps)

lemma wellFormed_initialAsync: "wellFormed initialAsync"
  by (simp add: wellFormed_def initialAsync_def continuationOk_def registered_def pending_def)

lemma wellFormed_run: "wellFormed (run initialAsync evs)"
  using run_keeps [OF wellFormed_initialAsync, of evs] by (simp add: keeps_def)

lemma fanIn_facts:
  "nextFn twoModules = 0"
  "registered fanIn 0 = [0, 2]"
  "resolved (queues (run fanIn [Settle 0 (Fulfilled (VNum 9)), Result 0 VUndefined]) 0)"
  "resolved (queues (run fanIn [Settle 0 (Fulfilled (VNum 9)), Result 0 VUndefined]) 2)"
  "resolved (queues (run fanIn [Result 0 VUndefined, Settle 0 (Fulfilled (VNum 9))]) 0)"
  "resolved (queues (run fanIn [Result 0 VUndefined, Settle 0 (Fulfilled (VNum 9))]) 2)"
  "resolved (queues (run fanIn [Result 0 VUndefined]) 0)"
  "\<not> resolved (queues (run fanIn [Result 0 VUndefined]) 2)"
  by code_simp+

text \<open>
  Claim C1. In a well-formed state (every state the runtime can reach from the initial
  one is well-formed, \<open>wellFormed_run\<close>), let \<^verbatim>\<open>handleAsyncDependencies\<close> create the
  continuation \<open>f\<close>. Its pending-count is then the number of the distinct queues it
  was pushed to, all unresolved, and it has not been called. After any further events,
  in any order, it has been called once if it was registered against at least one queue
  and all these queues are resolved, and not at all otherwise; while it has not been
  called its pending-count is the number of its queues that are still unresolved.
\<close>

theorem continuation_fires_once:
  assumes wf: "wellFormed st"
  shows "queueCount (fns (snd (handleAsyncDependencies st m deps)) (nextFn st))
           = int (length (registered (snd (handleAsyncDependencies st m deps)) (nextFn st))) \<and>
         pending (snd (handleAsyncDependencies st m deps)) (nextFn st)
           = registered (snd (handleAsyncDependencies st m deps)) (nextFn st) \<and>
         calls (fns (snd (handleAsyncDependencies st m deps)) (nextFn st)) = 0 \<and>
         (\<forall>evs.
            calls (fns (run (snd (handleAsyncDependencies st m deps)) evs) (nextFn st))
              = (if registered (snd (handleAsyncDependencies st m deps)) (nextFn st) \<noteq> [] \<and>
                    (\<forall>q \<in> set (registered (snd (handleAsyncDependencies st m deps)) (nextFn st)).
                       resolved (queues (run (snd (handleAsyncDependencies st m deps)) evs) q))
                 then 1 else 0) \<and>
            (calls (fns (run (snd (handleAsyncDependencies st m deps)) evs) (nextFn st)) = 0 \<longrightarrow>
               queueCount (fns (run (snd (handleAsyncDependencies st m deps)) evs) (nextFn st))
                 = int (length (filter
                     (\<lambda>q. \<not> resolved (queues (run (snd (handleAsyncDependencies st m deps)) evs) q))
                     (registered (snd (handleAsyncDependencies st m deps)) (nextFn st))))))"
proof -
  define st1 where "st1 = snd (handleAsyncDependencies st m deps)"
  define f where "f = nextFn st"
  obtain hs sw where w: "wrapDeps st deps = (hs, sw)" by (cases "wrapDeps st deps")
  define st3 where "st3 = sw\<lparr>promises := (promises sw)(nextPromise sw := Pending),
                   nextPromise := Suc (nextPromise sw),
                   fns := (fns sw)(nextFn sw :=
                     \<lparr>queueCount = 0, calls = 0, resolves = nextPromise sw, yields = hs\<rparr>),
                   nextFn := Suc (nextFn sw)\<rparr>"
  define st4 where "st4 = foldl (registerDep m (nextFn sw)) st3 hs"
  note l = handleAsyncDependencies_loop [OF wf w st3_def st4_def]
  from l(4) have st1: "st1 = st4" by (simp add: st1_def)
  from l(1) have wf1: "wellFormed st1" and reg: "registering m f st1"
    by (simp_all add: loopInv_def st1 f_def)
  note cnt = registering_count [OF wf1 reg]
  from reg have c0: "calls (fns st1 f) = 0" and fa: "f < nextFn st1"
    by (simp_all add: registering_def)
  have later: "calls (fns (run st1 evs) f)
              = (if registered st1 f \<noteq> [] \<and> (\<forall>q \<in> set (registered st1 f). resolved (queues (run st1 evs) q))
                 then 1 else 0) \<and>
            (calls (fns (run st1 evs) f) = 0 \<longrightarrow>
               queueCount (fns (run st1 evs) f)
                 = int (length (filter (\<lambda>q. \<not> resolved (queues (run st1 evs) q)) (registered st1 f))))"
    for evs
  proof -
    let ?st2 = "run st1 evs"
    from run_keeps [OF wf1, of evs] have wf2: "wellFormed ?st2" and e: "extends st1 ?st2"
      by (simp_all add: keeps_def)
    have r: "registered ?st2 f = registered st1 f"
      by (rule registered_extends [OF wf1 e fa])
    have p: "pending ?st2 f = filter (\<lambda>q. \<not> resolved (queues ?st2 q)) (registered st1 f)"
      by (simp add: pending_def r)
    from e fa have "f < nextFn ?st2" by (simp add: extends_def)
    with wf2 have ok: "continuationOk ?st2 f" by (simp add: wellFormed_def)
    show ?thesis
    proof (cases "registered st1 f = []")
      case True
      with ok r show ?thesis by (simp add: continuationOk_def)
    next
      case False
      show ?thesis
      proof (cases "pending ?st2 f = []")
        case True
        then have "\<forall>q \<in> set (registered st1 f). resolved (queues ?st2 q)"
          unfolding p by (simp add: filter_empty_conv)
        with ok True False r show ?thesis by (simp add: continuationOk_def)
      next
        case ne: False
        then have "\<not> (\<forall>q \<in> set (registered st1 f). resolved (queues ?st2 q))"
          unfolding p by (simp add: filter_empty_conv)
        with ok ne p show ?thesis by (simp add: continuationOk_def)
      qed
    qed
  qed
  show ?thesis
    unfolding st1_def [symmetric] f_def [symmetric]
    by (intro conjI allI cnt c0 later)
qed

theorem continuation_fires_once_witness:
  "wellFormed twoModules \<and> registered fanIn 0 = [0, 2] \<and>
   queueCount (fns fanIn 0) = 2 \<and> calls (fns fanIn 0) = 0 \<and>
   calls (fns (run fanIn [Settle 0 (Fulfilled (VNum 9)), Result 0 VUndefined]) 0) = 1 \<and>
   calls (fns (run fanIn [Result 0 VUndefined, Settle 0 (Fulfilled (VNum 9))]) 0) = 1 \<and>
   calls (fns (run fanIn [Result 0 VUndefined]) 0) = 0 \<and>
   queueCount (fns (run fanIn [Result 0 VUndefined]) 0) = 1"
proof -
  have wf: "wellFormed twoModules"
    unfolding twoModules_def by (rule wellFormed_run)
  note t = continuation_fires_once [OF wf, of 1 fanInDeps, folded fanIn_def,
      unfolded fanIn_facts(1) fanIn_facts(2)]
  note later = t [THEN conjunct2, THEN conjunct2, THEN conjunct2, THEN spec]
  from t have "queueCount (fns fanIn 0) = 2" "calls (fns fanIn 0) = 0" by simp_all
  moreover from later [of "[Settle 0 (Fulfilled (VNum 9)), Result 0 VUndefined]"]
  have "calls (fns (run fanIn [Settle 0 (Fulfilled (VNum 9)), Result 0 VUndefined]) 0) = 1"
    by (simp add: fanIn_facts)
  moreover from later [of "[Result 0 VUndefined, Settle 0 (Fulfilled (VNum 9))]"]
  have "calls (fns (run fanIn [Result 0 VUndefined, Settle 0 (Fulfilled (VNum 9))]) 0) = 1"
    by (simp add: fanIn_facts)
  moreover from later [of "[Result 0 VUndefined]"]
  have "calls (fns (run fanIn [Result 0 VUndefined]) 0) = 0 \<and>
        queueCount (fns (run fanIn [Result 0 VUndefined]) 0) = 1"
    by (simp add: fanIn_facts)
  ultimately show ?thesis
    using wf fanIn_facts(2) by simp
qed

section \<open>Async dependency resolver: the fast path\<close>

lemma fnQueue_untouched:
  assumes "untouched m s0 s" "resolved (queues s0 q)"
  shows "untouched m s0 (fnQueue m f s q)"
proof -
  from assms have r: "resolved (queues s q)" by (simp add: untouched_def)
  show ?thesis
  proof (cases "am_queue (amods s m) = Some q \<or> q \<in> set (am_depQueues (amods s m))")
    case True
    then have "fnQueue m f s q = s" by (simp add: fnQueue_cases)
    with assms show ?thesis by simp
  next
    case False
    with r have eq: "fnQueue m f s q =
         s\<lparr>amods := (amods s)(m := (amods s m)\<lparr>am_depQueues := am_depQueues (amods s m) @ [q]\<rparr>)\<rparr>"
      by (simp add: fnQueue_cases)
    have "untouched m s0
            (s\<lparr>amods := (amods s)(m := (amods s m)\<lparr>am_depQueues := am_depQueues (amods s m) @ [q]\<rparr>)\<rparr>)"
      using assms unfolding untouched_def by simp
    with eq show ?thesis by simp
  qed
qed

lemma fnQueues_untouched:
  assumes "untouched m s0 s" "\<forall>q \<in> set qs. resolved (queues s0 q)"
  shows "untouched m s0 (foldl (fnQueue m f) s qs)"
  using assms by (induction qs arbitrary: s) (simp_all add: fnQueue_untouched)

lemma queuesOf_untouched:
  assumes u: "untouched m s0 s" and r: "\<forall>q \<in> set (queuesOf s0 h). resolved (queues s0 q)"
  shows "\<forall>q \<in> set (queuesOf s h). resolved (queues s0 q)"
proof (cases h)
  case (HModule a)
  show ?thesis
  proof (cases "ext s0 a")
    case None
    with u HModule show ?thesis by (simp add: untouched_def)
  next
    case (Some x)
    from u have q: "am_queue (amods s (x_owner x)) = am_queue (amods s0 (x_owner x))"
      by (simp add: untouched_def)
    have d: "\<forall>q \<in> set (am_depQueues (amods s (x_owner x))).
               q \<in> set (am_depQueues (amods s0 (x_owner x))) \<or> resolved (queues s0 q)"
      using u by (cases "x_owner x = m") (auto simp: untouched_def)
    from u Some have "ext s a = Some x" by (simp add: untouched_def)
    with r d show ?thesis
      unfolding HModule by (auto simp: Some q split: option.splits)
  qed
next
  case (HWrapped k)
  with u r show ?thesis by (simp add: untouched_def)
next
  case (HPlain v)
  then show ?thesis by simp
qed

lemma registerDeps_untouched:
  assumes "untouched m s0 s" "\<forall>h \<in> set hs. \<forall>q \<in> set (queuesOf s0 h). resolved (queues s0 q)"
  shows "untouched m s0 (foldl (registerDep m f) s hs)"
  using assms
proof (induction hs arbitrary: s)
  case Nil
  then show ?case by simp
next
  case (Cons h hs)
  from Cons.prems(2) have here: "\<forall>q \<in> set (queuesOf s0 h). resolved (queues s0 q)"
    and rest: "\<forall>h \<in> set hs. \<forall>q \<in> set (queuesOf s0 h). resolved (queues s0 q)"
    by simp_all
  have q: "\<forall>q \<in> set (queuesOf s h). resolved (queues s0 q)"
    by (rule queuesOf_untouched [OF Cons.prems(1) here])
  have u: "untouched m s0 (registerDep m f s h)"
    unfolding registerDep_def by (rule fnQueues_untouched [OF Cons.prems(1) q])
  show ?case
    using Cons.IH [OF u rest] by simp
qed

lemma getResult_cong:
  "ext s = ext s0 \<Longrightarrow> wrappedDeps s = wrappedDeps s0 \<Longrightarrow> getResult s hs = getResult s0 hs"
proof (induction hs)
  case Nil
  then show ?case by simp
next
  case (Cons h hs)
  then have "errorOf s h = errorOf s0 h" "exportsOf s h = exportsOf s0 h"
    by (cases h; simp)+
  with Cons show ?case by (simp split: completion.splits)
qed

lemma fnQueue_slots:
  "ext (fnQueue m f st q) = ext st \<and> wrappedDeps (fnQueue m f st q) = wrappedDeps st \<and>
   promises (fnQueue m f st q) = promises st"
  by (simp add: fnQueue_def increment_def Let_def)

lemma fnQueues_slots:
  "ext (foldl (fnQueue m f) st qs) = ext st \<and>
   wrappedDeps (foldl (fnQueue m f) st qs) = wrappedDeps st \<and>
   promises (foldl (fnQueue m f) st qs) = promises st"
  by (induction qs arbitrary: st) (simp_all add: fnQueue_slots)

lemma registerDeps_slots:
  "ext (foldl (registerDep m f) st hs) = ext st \<and>
   wrappedDeps (foldl (registerDep m f) st hs) = wrappedDeps st \<and>
   promises (foldl (registerDep m f) st hs) = promises st"
  by (induction hs arbitrary: st) (simp_all add: registerDep_def fnQueues_slots)


text \<open>
  What \<^verbatim>\<open>handleAsyncDependencies\<close> returns, with \<^verbatim>\<open>getResult\<close> read in the state in which the
  dependencies were wrapped: registration writes no slot of a handle.
\<close>

lemma handleAsyncDependencies_result:
  assumes w: "wrapDeps st deps = (hs, st1)"
  shows "fst (handleAsyncDependencies st m deps) =
           (if queueCount (fns (snd (handleAsyncDependencies st m deps)) (nextFn st1)) \<noteq> 0
            then Normal (HPromise (nextPromise st1))
            else (case getResult st1 hs of Normal vs \<Rightarrow> Normal (HArray vs) | Throw e \<Rightarrow> Throw e))"
proof -
  define st3 where "st3 = st1\<lparr>promises := (promises st1)(nextPromise st1 := Pending),
                   nextPromise := Suc (nextPromise st1),
                   fns := (fns st1)(nextFn st1 :=
                     \<lparr>queueCount = 0, calls = 0, resolves = nextPromise st1, yields = hs\<rparr>),
                   nextFn := Suc (nextFn st1)\<rparr>"
  define st4 where "st4 = foldl (registerDep m (nextFn st1)) st3 hs"
  have "ext st4 = ext st1" "wrappedDeps st4 = wrappedDeps st1"
    by (simp_all add: st4_def registerDeps_slots st3_def)
  then have g: "getResult st4 hs = getResult st1 hs"
    by (rule getResult_cong)
  show ?thesis
    unfolding handleAsyncDependencies_unfold [OF w] st3_def [symmetric]
    unfolding Let_def st4_def [symmetric] g
    by (simp split: completion.splits)
qed

lemma handleAsyncDependencies_fast:
  assumes w: "wrapDeps st deps = (hs, st1)"
    and r: "\<forall>h \<in> set hs. \<forall>q \<in> set (queuesOf st1 h). resolved (queues st1 q)"
  shows "queueCount (fns (snd (handleAsyncDependencies st m deps)) (nextFn st1)) = 0"
proof -
  define st3 where "st3 = st1\<lparr>promises := (promises st1)(nextPromise st1 := Pending),
                   nextPromise := Suc (nextPromise st1),
                   fns := (fns st1)(nextFn st1 :=
                     \<lparr>queueCount = 0, calls = 0, resolves = nextPromise st1, yields = hs\<rparr>),
                   nextFn := Suc (nextFn st1)\<rparr>"
  define st4 where "st4 = foldl (registerDep m (nextFn st1)) st3 hs"
  have q3: "\<And>h. queuesOf st3 h = queuesOf st1 h"
  proof -
    fix h show "queuesOf st3 h = queuesOf st1 h"
      by (cases h) (simp_all add: st3_def split: option.splits)
  qed
  have r3: "\<forall>h \<in> set hs. \<forall>q \<in> set (queuesOf st3 h). resolved (queues st3 q)"
    using r by (simp add: q3) (simp add: st3_def)
  have "untouched m st3 st3" by (simp add: untouched_def)
  then have "untouched m st3 st4"
    unfolding st4_def using r3 by (rule registerDeps_untouched)
  then have "fns st4 = fns st3" by (simp add: untouched_def)
  then have c: "queueCount (fns st4 (nextFn st1)) = 0" by (simp add: st3_def)
  have "snd (handleAsyncDependencies st m deps) = st4"
    unfolding handleAsyncDependencies_unfold [OF w] st3_def [symmetric]
    unfolding Let_def st4_def [symmetric]
    by (simp split: completion.splits)
  with c show ?thesis by simp
qed

lemma handleAsyncDependencies_slow:
  assumes wf: "wellFormed st" and w: "wrapDeps st deps = (hs, st1)"
    and c: "queueCount (fns (snd (handleAsyncDependencies st m deps)) (nextFn st1)) \<noteq> 0"
  shows "promises (snd (handleAsyncDependencies st m deps)) (nextPromise st1) = Pending"
    "resolves (fns (snd (handleAsyncDependencies st m deps)) (nextFn st1)) = nextPromise st1"
    "yields (fns (snd (handleAsyncDependencies st m deps)) (nextFn st1)) = hs"
    "calls (fns (snd (handleAsyncDependencies st m deps)) (nextFn st1)) = 0"
    "registered (snd (handleAsyncDependencies st m deps)) (nextFn st1) \<noteq> []"
    "\<forall>q \<in> set (registered (snd (handleAsyncDependencies st m deps)) (nextFn st1)).
       \<not> resolved (queues (snd (handleAsyncDependencies st m deps)) q)"
proof -
  define st3 where "st3 = st1\<lparr>promises := (promises st1)(nextPromise st1 := Pending),
                   nextPromise := Suc (nextPromise st1),
                   fns := (fns st1)(nextFn st1 :=
                     \<lparr>queueCount = 0, calls = 0, resolves = nextPromise st1, yields = hs\<rparr>),
                   nextFn := Suc (nextFn st1)\<rparr>"
  define st4 where "st4 = foldl (registerDep m (nextFn st1)) st3 hs"
  note l = handleAsyncDependencies_loop [OF wf w st3_def st4_def]
  from l(1) have inv: "loopInv m (nextFn st1) st3 st4" by (simp add: l(3))
  then have wf4: "wellFormed st4" and reg: "registering m (nextFn st1) st4"
    and p: "promises st4 = promises st3"
    and rs: "resolves (fns st4 (nextFn st1)) = resolves (fns st3 (nextFn st1))"
    and ys: "yields (fns st4 (nextFn st1)) = yields (fns st3 (nextFn st1))"
    by (simp_all add: loopInv_def)
  note cnt = registering_count [OF wf4 reg]
  show "promises (snd (handleAsyncDependencies st m deps)) (nextPromise st1) = Pending"
    by (simp add: l(4) p st3_def)
  show "resolves (fns (snd (handleAsyncDependencies st m deps)) (nextFn st1)) = nextPromise st1"
    by (simp add: l(4) rs st3_def)
  show "yields (fns (snd (handleAsyncDependencies st m deps)) (nextFn st1)) = hs"
    by (simp add: l(4) ys st3_def)
  show "calls (fns (snd (handleAsyncDependencies st m deps)) (nextFn st1)) = 0"
    using reg by (simp add: l(4) registering_def)
  show "registered (snd (handleAsyncDependencies st m deps)) (nextFn st1) \<noteq> []"
    using c cnt(1) by (auto simp: l(4))
  show "\<forall>q \<in> set (registered (snd (handleAsyncDependencies st m deps)) (nextFn st1)).
       \<not> resolved (queues (snd (handleAsyncDependencies st m deps)) q)"
    using reg by (simp add: l(4) registering_def in_registered)
qed


lemma plain_facts:
  "wrapDeps twoModules [VNum 1, VStr ''x''] = ([HPlain (VNum 1), HPlain (VStr ''x'')], twoModules)"
  "wrapDeps initialAsync [promise20] =
     ([HWrapped 0],
      initialAsync\<lparr>queues := (queues initialAsync)(0 := \<lparr>resolved = False, entries = []\<rparr>),
                   nextQueue := 1,
                   wrappedDeps := (wrappedDeps initialAsync)(0 :=
                     \<lparr>w_exports = VObj (Ref 30 False (Some objectPrototype)),
                      w_error = VUndefined, w_queue = 0\<rparr>),
                   nextWrapped := 1,
                   base := asyncBase\<lparr>store := (store asyncBase)(30 := []), fresh := 31\<rparr>\<rparr>)"
  by (simp_all add: wrapDep_def promise20_def initialAsync_def alloc_def asyncBase_def Let_def)

lemma slow_facts:
  "fst (handleAsyncDependencies initialAsync 0 [promise20]) = Normal (HPromise 0)"
  "registered (snd (handleAsyncDependencies initialAsync 0 [promise20])) 0 = [0]"
  by code_simp+

text \<open>
  Claim C2, as the specification words it, fails: on the fast path the caller is given
  the list of values itself, not a function that yields it. Module 1 of \<open>twoModules\<close>
  asks for two plain values and gets the array of the two.
\<close>

theorem fast_path_returns_list:
  "fst (handleAsyncDependencies twoModules 1 [VNum 1, VStr ''x''])
     = Normal (HArray [VNum 1, VStr ''x'']) \<and>
   typeofH (HArray [VNum 1, VStr ''x'']) = ''object''"
  by (simp add: handleAsyncDependencies_result [OF plain_facts(1)]
      handleAsyncDependencies_fast [OF plain_facts(1)])

text \<open>
  Claim C2, amended. Let \<^verbatim>\<open>wrapDeps\<close> turn the dependencies into the handles \<open>hs\<close>. If every
  queue these handles offer is already resolved, the pending-count of the new
  continuation stays zero and the call returns synchronously what \<^verbatim>\<open>getResult()\<close>
  returns: the list of the values itself, or the stored error of a failed dependency,
  raised. The call never returns a function. In a well-formed state it returns a promise
  only if some queue offered by a handle is still unresolved; that promise is pending,
  it is the one the new continuation resolves with the function that yields the values
  of \<open>hs\<close>, and the continuation has not been called and waits in at least one queue, all
  of its queues being unresolved.
\<close>

theorem fast_path_synchronous:
  assumes w: "wrapDeps st deps = (hs, st1)"
  shows "((\<forall>h \<in> set hs. \<forall>q \<in> set (queuesOf st1 h). resolved (queues st1 q)) \<longrightarrow>
            queueCount (fns (snd (handleAsyncDependencies st m deps)) (nextFn st1)) = 0 \<and>
            fst (handleAsyncDependencies st m deps)
              = (case getResult st1 hs of Normal vs \<Rightarrow> Normal (HArray vs) | Throw e \<Rightarrow> Throw e)) \<and>
         (\<forall>ds. fst (handleAsyncDependencies st m deps) \<noteq> Normal (HFunction ds)) \<and>
         (\<forall>p. wellFormed st \<and> fst (handleAsyncDependencies st m deps) = Normal (HPromise p) \<longrightarrow>
            (\<exists>h \<in> set hs. \<exists>q \<in> set (queuesOf st1 h). \<not> resolved (queues st1 q)) \<and>
            promises (snd (handleAsyncDependencies st m deps)) p = Pending \<and>
            resolves (fns (snd (handleAsyncDependencies st m deps)) (nextFn st1)) = p \<and>
            yields (fns (snd (handleAsyncDependencies st m deps)) (nextFn st1)) = hs \<and>
            calls (fns (snd (handleAsyncDependencies st m deps)) (nextFn st1)) = 0 \<and>
            registered (snd (handleAsyncDependencies st m deps)) (nextFn st1) \<noteq> [] \<and>
            (\<forall>q \<in> set (registered (snd (handleAsyncDependencies st m deps)) (nextFn st1)).
               \<not> resolved (queues (snd (handleAsyncDependencies st m deps)) q)))"
proof (intro conjI impI allI)
  assume r: "\<forall>h \<in> set hs. \<forall>q \<in> set (queuesOf st1 h). resolved (queues st1 q)"
  show c: "queueCount (fns (snd (handleAsyncDependencies st m deps)) (nextFn st1)) = 0"
    by (rule handleAsyncDependencies_fast [OF w r])
  show "fst (handleAsyncDependencies st m deps)
          = (case getResult st1 hs of Normal vs \<Rightarrow> Normal (HArray vs) | Throw e \<Rightarrow> Throw e)"
    unfolding handleAsyncDependencies_result [OF w] using c by simp
next
  fix ds
  show "fst (handleAsyncDependencies st m deps) \<noteq> Normal (HFunction ds)"
    unfolding handleAsyncDependencies_result [OF w] by (simp split: completion.splits)
next
  fix p
  assume a: "wellFormed st \<and> fst (handleAsyncDependencies st m deps) = Normal (HPromise p)"
  then have wf: "wellFormed st" by simp
  from a have "queueCount (fns (snd (handleAsyncDependencies st m deps)) (nextFn st1)) \<noteq> 0
               \<and> p = nextPromise st1"
    unfolding handleAsyncDependencies_result [OF w]
    by (simp split: if_splits completion.splits)
  then have c: "queueCount (fns (snd (handleAsyncDependencies st m deps)) (nextFn st1)) \<noteq> 0"
    and p: "p = nextPromise st1" by simp_all
  note s = handleAsyncDependencies_slow [OF wf w c]
  show "\<exists>h \<in> set hs. \<exists>q \<in> set (queuesOf st1 h). \<not> resolved (queues st1 q)"
    using handleAsyncDependencies_fast [OF w, of m] c by blast
  show "promises (snd (handleAsyncDependencies st m deps)) p = Pending"
    unfolding p by (rule s(1))
  show "resolves (fns (snd (handleAsyncDependencies st m deps)) (nextFn st1)) = p"
    unfolding p by (rule s(2))
  show "yields (fns (snd (handleAsyncDependencies st m deps)) (nextFn st1)) = hs"
    by (rule s(3))
  show "calls (fns (snd (handleAsyncDependencies st m deps)) (nextFn st1)) = 0"
    by (rule s(4))
  show "registered (snd (handleAsyncDependencies st m deps)) (nextFn st1) \<noteq> []"
    by (rule s(5))
  show "\<forall>q \<in> set (registered (snd (handleAsyncDependencies st m deps)) (nextFn st1)).
          \<not> resolved (queues (snd (handleAsyncDependencies st m deps)) q)"
    by (rule s(6))
qed

theorem fast_path_synchronous_witness:
  "wrapDeps twoModules [VNum 1, VStr ''x''] = ([HPlain (VNum 1), HPlain (VStr ''x'')], twoModules) \<and>
   queueCount (fns (snd (handleAsyncDependencies twoModules 1 [VNum 1, VStr ''x'']))
                   (nextFn twoModules)) = 0 \<and>
   fst (handleAsyncDependencies twoModules 1 [VNum 1, VStr ''x''])
     = Normal (HArray [VNum 1, VStr ''x'']) \<and>
   wellFormed initialAsync \<and>
   fst (handleAsyncDependencies initialAsync 0 [promise20]) = Normal (HPromise 0) \<and>
   promises (snd (handleAsyncDependencies initialAsync 0 [promise20])) 0 = Pending \<and>
   yields (fns (snd (handleAsyncDependencies initialAsync 0 [promise20])) 0) = [HWrapped 0] \<and>
   calls (fns (snd (handleAsyncDependencies initialAsync 0 [promise20])) 0) = 0 \<and>
   \<not> resolved (queues (snd (handleAsyncDependencies initialAsync 0 [promise20])) 0)"
proof -
  note fast = fast_path_synchronous [OF plain_facts(1), of 1, THEN conjunct1]
  have r: "\<forall>h \<in> set [HPlain (VNum 1), HPlain (VStr ''x'')].
             \<forall>q \<in> set (queuesOf twoModules h). resolved (queues twoModules q)"
    by simp
  from fast r
  have a: "queueCount (fns (snd (handleAsyncDependencies twoModules 1 [VNum 1, VStr ''x'']))
                   (nextFn twoModules)) = 0"
    "fst (handleAsyncDependencies twoModules 1 [VNum 1, VStr ''x''])
       = Normal (HArray [VNum 1, VStr ''x''])"
    by simp_all
  define st1 where "st1 = snd (wrapDeps initialAsync [promise20])"
  have w: "wrapDeps initialAsync [promise20] = ([HWrapped 0], st1)"
    unfolding st1_def plain_facts(2) by simp
  have n: "nextFn st1 = 0"
    unfolding st1_def plain_facts(2) by (simp add: initialAsync_def)
  note slow = fast_path_synchronous [OF w, of 0, THEN conjunct2, THEN conjunct2,
      THEN spec, of 0]
  from slow wellFormed_initialAsync slow_facts(1)
  have b: "promises (snd (handleAsyncDependencies initialAsync 0 [promise20])) 0 = Pending"
    "yields (fns (snd (handleAsyncDependencies initialAsync 0 [promise20])) 0) = [HWrapped 0]"
    "calls (fns (snd (handleAsyncDependencies initialAsync 0 [promise20])) 0) = 0"
    "\<forall>q \<in> set (registered (snd (handleAsyncDependencies initialAsync 0 [promise20])) 0).
       \<not> resolved (queues (snd (handleAsyncDependencies initialAsync 0 [promise20])) q)"
    by (simp_all add: n)
  from b(4) have "\<not> resolved (queues (snd (handleAsyncDependencies initialAsync 0 [promise20])) 0)"
    by (simp add: slow_facts(2))
  with a b plain_facts(1) wellFormed_initialAsync slow_facts(1) show ?thesis
    by simp
qed

section \<open>Async dependency resolver: stored errors\<close>











end
